theory Spec2Isabelle
  imports Main "HOL-Library.Word"
begin

section \<open>The emitter of packages/compiler/src/output/abstract\_emitter.ts\<close>

text \<open>
  A shallow embedding of \<^verbatim>\<open>abstract_emitter.ts\<close>: the line buffer
  \<^verbatim>\<open>EmitterVisitorContext\<close>, the generic visitor
  \<^verbatim>\<open>AbstractEmitterVisitor\<close>, \<^verbatim>\<open>escapeIdentifier\<close> and the
  assembly of the source map. A JavaScript exception is a value \<open>Inl e\<close> of
  \<open>error + 'a\<close>; the mutable context is passed in and returned. A leading underscore
  of a source name is dropped (\<^verbatim>\<open>_lines\<close> is \<open>ctx_lines\<close>,
  \<^verbatim>\<open>_indent\<close> is \<open>ctx_indent\<close>), since an Isabelle name cannot start
  with one. Strings are lists of characters, and the length of a string is the number of
  its characters.
\<close>

subsection \<open>Tags and errors\<close>

text \<open>
  Modelled from the spec: the enumerations \<^verbatim>\<open>o.BuiltinVar\<close> and
  \<^verbatim>\<open>o.BinaryOperator\<close> are declared in \<^verbatim>\<open>output_ast.ts\<close>,
  which is not part of the sources at hand. Their members are the ones the two
  \<^verbatim>\<open>switch\<close> statements of the emitter name; a TypeScript enumeration is a
  number at run time, so every other tag is \<open>OtherBuiltinVar n\<close> or
  \<open>OtherBinaryOperator n\<close>. \<^verbatim>\<open>BinaryOperator.Plus\<close> is
  \<open>Plus_op\<close>, since \<open>Plus\<close> is the sum of two sets in HOL.
\<close>

datatype BuiltinVar = This | Super | CatchError | CatchStack | OtherBuiltinVar nat

datatype BinaryOperator =
    Equals | NotEquals | Identical | NotIdentical | Minus | Plus_op | Divide | Multiply
  | Modulo | And | Or | Lower | LowerEquals | Bigger | BiggerEquals
  | OtherBinaryOperator nat

text \<open>
  The exceptions of the emitter: the two \<^verbatim>\<open>throw new Error(...)\<close>, whose
  message names the tag, and the \<^verbatim>\<open>TypeError\<close> of JavaScript for a
  property read on \<^verbatim>\<open>undefined\<close> or \<^verbatim>\<open>null\<close>.
\<close>

datatype error =
    TypeError
  | Unknown_builtin_variable BuiltinVar
  | Unknown_operator BinaryOperator

definition andThen :: "error + 'a \<Rightarrow> ('a \<Rightarrow> error + 'b) \<Rightarrow> error + 'b" where
  "andThen m f = (case m of Inl e \<Rightarrow> Inl e | Inr x \<Rightarrow> f x)"

subsection \<open>Source spans\<close>

text \<open>
  Modelled from the spec: \<^verbatim>\<open>ParseSourceSpan\<close> is declared in
  \<^verbatim>\<open>parse_util.ts\<close>, which is not part of the sources at hand. The records
  have the fields that \<^verbatim>\<open>toSourceMapGenerator\<close> reads:
  \<^verbatim>\<open>span.start.file.url\<close>, \<^verbatim>\<open>span.start.file.content\<close>,
  \<^verbatim>\<open>span.start.line\<close> and \<^verbatim>\<open>span.start.col\<close>. The
  fields \<^verbatim>\<open>file\<close>, \<^verbatim>\<open>line\<close> and \<^verbatim>\<open>col\<close> of a
  location are \<open>loc_file\<close>, \<open>loc_line\<close> and \<open>loc_col\<close>.

  The emitter compares spans with \<^verbatim>\<open>===\<close>, the identity of objects. A span
  is therefore a reference \<open>span_ref\<close> into a store of span objects, and two
  references are the same object when they are equal; two different references may hold
  equal data.
\<close>

record ParseSourceFile =
  content :: string
  url :: string

record ParseLocation =
  loc_file :: ParseSourceFile
  loc_line :: int
  loc_col :: int

record ParseSourceSpan =
  start :: ParseLocation

type_synonym span_ref = nat

type_synonym span_store = "span_ref \<Rightarrow> ParseSourceSpan"

subsection \<open>The emitter context\<close>

definition INDENT_WITH :: string where
  "INDENT_WITH = ''  ''"

record EmittedLine =
  parts :: "string list"
  srcSpans :: "span_ref option list"
  indent :: int

definition new_EmittedLine :: "int \<Rightarrow> EmittedLine" where
  "new_EmittedLine i = \<lparr>parts = [], srcSpans = [], indent = i\<rparr>"

record EmitterVisitorContext =
  ctx_exportedVars :: "string list"
  ctx_indent :: int
  ctx_lines :: "EmittedLine list"

definition new_EmitterVisitorContext :: "string list \<Rightarrow> int \<Rightarrow> EmitterVisitorContext" where
  "new_EmitterVisitorContext exportedVars i =
     \<lparr>ctx_exportedVars = exportedVars, ctx_indent = i, ctx_lines = [new_EmittedLine i]\<rparr>"

definition createRoot :: "string list \<Rightarrow> EmitterVisitorContext" where
  "createRoot exportedVars = new_EmitterVisitorContext exportedVars 0"

text \<open>
  \<^verbatim>\<open>_currentLine\<close> is \<^verbatim>\<open>this._lines[this._lines.length - 1]\<close>:
  \<^verbatim>\<open>undefined\<close> (here \<open>None\<close>) when there is no line, and every use
  of it then raises a \<^verbatim>\<open>TypeError\<close>.
\<close>

definition currentLine :: "EmitterVisitorContext \<Rightarrow> EmittedLine option" where
  "currentLine ctx = (if ctx_lines ctx = [] then None else Some (last (ctx_lines ctx)))"

definition set_currentLine :: "EmittedLine \<Rightarrow> EmitterVisitorContext \<Rightarrow> EmitterVisitorContext" where
  "set_currentLine l ctx = ctx\<lparr>ctx_lines := butlast (ctx_lines ctx) @ [l]\<rparr>"

definition isExportedVar :: "EmitterVisitorContext \<Rightarrow> string \<Rightarrow> bool" where
  "isExportedVar ctx varName = (varName \<in> set (ctx_exportedVars ctx))"

definition lineIsEmpty :: "EmitterVisitorContext \<Rightarrow> error + bool" where
  "lineIsEmpty ctx =
     (case currentLine ctx of None \<Rightarrow> Inl TypeError | Some l \<Rightarrow> Inr (parts l = []))"

text \<open>
  \<^verbatim>\<open>print(from, part, newLine)\<close>. The argument \<open>frm\<close> is
  \<^verbatim>\<open>from && from.sourceSpan || null\<close>: the span of the node that prints, or
  \<open>None\<close>.
\<close>

definition print ::
  "EmitterVisitorContext \<Rightarrow> span_ref option \<Rightarrow> string \<Rightarrow> bool \<Rightarrow> error + EmitterVisitorContext" where
  "print ctx frm part newLine =
     andThen
       (if part \<noteq> [] then
          (case currentLine ctx of
             None \<Rightarrow> Inl TypeError
           | Some l \<Rightarrow>
               Inr (set_currentLine
                      (l\<lparr>parts := parts l @ [part], srcSpans := srcSpans l @ [frm]\<rparr>) ctx))
        else Inr ctx)
       (\<lambda>ctx1.
          if newLine then
            Inr (ctx1\<lparr>ctx_lines := ctx_lines ctx1 @ [new_EmittedLine (ctx_indent ctx1)]\<rparr>)
          else Inr ctx1)"

definition println ::
  "EmitterVisitorContext \<Rightarrow> span_ref option \<Rightarrow> string \<Rightarrow> error + EmitterVisitorContext" where
  "println ctx frm lastPart = print ctx frm lastPart True"

definition removeEmptyLastLine :: "EmitterVisitorContext \<Rightarrow> error + EmitterVisitorContext" where
  "removeEmptyLastLine ctx =
     andThen (lineIsEmpty ctx)
       (\<lambda>b. if b then Inr (ctx\<lparr>ctx_lines := butlast (ctx_lines ctx)\<rparr>) else Inr ctx)"

definition set_indent :: "int \<Rightarrow> EmitterVisitorContext \<Rightarrow> error + EmitterVisitorContext" where
  "set_indent i ctx =
     (let ctx1 = ctx\<lparr>ctx_indent := i\<rparr> in
      case currentLine ctx1 of
        None \<Rightarrow> Inl TypeError
      | Some l \<Rightarrow> Inr (set_currentLine (l\<lparr>indent := ctx_indent ctx1\<rparr>) ctx1))"

definition incIndent :: "EmitterVisitorContext \<Rightarrow> error + EmitterVisitorContext" where
  "incIndent ctx = set_indent (ctx_indent ctx + 1) ctx"

definition decIndent :: "EmitterVisitorContext \<Rightarrow> error + EmitterVisitorContext" where
  "decIndent ctx = set_indent (ctx_indent ctx - 1) ctx"

definition sourceLines :: "EmitterVisitorContext \<Rightarrow> EmittedLine list" where
  "sourceLines ctx =
     (if ctx_lines ctx \<noteq> [] \<and> parts (last (ctx_lines ctx)) = [] then butlast (ctx_lines ctx)
      else ctx_lines ctx)"

definition createIndent :: "int \<Rightarrow> string" where
  "createIndent count = concat (replicate (nat count) INDENT_WITH)"

fun join :: "string \<Rightarrow> string list \<Rightarrow> string" where
  "join sep [] = []"
| "join sep [x] = x"
| "join sep (x # y # ys) = x @ sep @ join sep (y # ys)"

definition toSource :: "EmitterVisitorContext \<Rightarrow> string" where
  "toSource ctx =
     join [CHR 0x0A]
       (map (\<lambda>l. if parts l \<noteq> [] then createIndent (indent l) @ concat (parts l) else [])
          (sourceLines ctx))"

subsection \<open>Assembling the source map\<close>

text \<open>
  Modelled from the spec: \<^verbatim>\<open>SourceMapGenerator\<close> is declared in
  \<^verbatim>\<open>source_map.ts\<close>, which is not part of the sources at hand. It is the
  external encoder of the spec, and the model records the calls it receives, in order:
  \<^verbatim>\<open>addLine()\<close>, \<^verbatim>\<open>addSource(url, content)\<close> and
  \<^verbatim>\<open>addMapping(col0, sourceUrl, sourceLine0, sourceCol0)\<close>.
\<close>

datatype encoder_call =
    AddLine
  | AddSource string string
  | AddMapping int string int int

record SourceMapGenerator =
  gen_file :: "string option"
  calls :: "encoder_call list"

text \<open>
  The loops of \<^verbatim>\<open>toSourceMapGenerator\<close> run an index \<^verbatim>\<open>spanIdx\<close>
  over \<^verbatim>\<open>spans\<close> and read \<^verbatim>\<open>parts[spanIdx]\<close>. The functions
  below recurse on what is left of both arrays from \<^verbatim>\<open>spanIdx\<close> on. Reading
  \<^verbatim>\<open>parts[spanIdx].length\<close> past the end of \<^verbatim>\<open>parts\<close> is a
  \<^verbatim>\<open>TypeError\<close>.

  \<open>skip_leading\<close> is the first loop, "skip leading parts without source spans".
\<close>

fun skip_leading ::
  "int \<Rightarrow> span_ref option list \<Rightarrow> string list \<Rightarrow> error + (int \<times> span_ref option list \<times> string list)" where
  "skip_leading col0 (None # spans) (p # ps) = skip_leading (col0 + int (length p)) spans ps"
| "skip_leading col0 (None # spans) [] = Inl TypeError"
| "skip_leading col0 spans ps = Inr (col0, spans, ps)"

text \<open>
  \<open>absorb\<close> is the innermost loop, "assign parts without span or the same span to
  the previous segment".
\<close>

fun absorb ::
  "span_ref \<Rightarrow> int \<Rightarrow> span_ref option list \<Rightarrow> string list \<Rightarrow> error + (int \<times> span_ref option list \<times> string list)" where
  "absorb span col0 [] ps = Inr (col0, [], ps)"
| "absorb span col0 (s # spans) ps =
     (if s = Some span \<or> s = None then
        (case ps of
           [] \<Rightarrow> Inl TypeError
         | p # ps' \<Rightarrow> absorb span (col0 + int (length p)) spans ps')
      else Inr (col0, s # spans, ps))"

lemma absorb_length:
  "absorb span col0 spans ps = Inr (col1, spans1, ps1) \<Longrightarrow> length spans1 \<le> length spans"
  by (induction span col0 spans ps rule: absorb.induct)
     (auto split: if_splits list.splits)

text \<open>
  \<open>segments\<close> is the second loop, \<^verbatim>\<open>while (spanIdx < spans.length)\<close>. Each
  round calls \<^verbatim>\<open>addSource\<close> and \<^verbatim>\<open>addMapping\<close>. A round that
  starts at an entry without span reads \<^verbatim>\<open>span.start\<close> of
  \<^verbatim>\<open>null\<close>, a \<^verbatim>\<open>TypeError\<close>.
\<close>

function segments ::
  "span_store \<Rightarrow> int \<Rightarrow> span_ref option list \<Rightarrow> string list \<Rightarrow> error + encoder_call list" where
  "segments store col0 [] ps = Inr []"
| "segments store col0 (None # spans) ps = Inl TypeError"
| "segments store col0 (Some span # spans) [] = Inl TypeError"
| "segments store col0 (Some span # spans) (p # ps) =
     (let source = loc_file (start (store span));
          sourceLine = loc_line (start (store span));
          sourceCol = loc_col (start (store span))
      in case absorb span (col0 + int (length p)) spans ps of
           Inl e \<Rightarrow> Inl e
         | Inr (col1, spans1, ps1) \<Rightarrow>
             (case segments store col1 spans1 ps1 of
                Inl e \<Rightarrow> Inl e
              | Inr cs \<Rightarrow>
                  Inr (AddSource (url source) (content source)
                       # AddMapping col0 (url source) sourceLine sourceCol # cs)))"
  by pat_completeness auto
termination
  by (relation "measure (\<lambda>(store, col0, spans, ps). length spans)")
     (auto dest: absorb_length)

text \<open>The body of \<^verbatim>\<open>this.sourceLines.forEach(line => ...)\<close> for one line.\<close>

definition line_calls :: "span_store \<Rightarrow> EmittedLine \<Rightarrow> error + encoder_call list" where
  "line_calls store l =
     (case skip_leading (indent l * int (length INDENT_WITH)) (srcSpans l) (parts l) of
        Inl e \<Rightarrow> Inl e
      | Inr (col0, spans, ps) \<Rightarrow>
          (case segments store col0 spans ps of
             Inl e \<Rightarrow> Inl e
           | Inr cs \<Rightarrow> Inr (AddLine # cs)))"

fun forEach_line :: "span_store \<Rightarrow> EmittedLine list \<Rightarrow> error + encoder_call list" where
  "forEach_line store [] = Inr []"
| "forEach_line store (l # ls) =
     (case line_calls store l of
        Inl e \<Rightarrow> Inl e
      | Inr cs \<Rightarrow>
          (case forEach_line store ls of
             Inl e \<Rightarrow> Inl e
           | Inr cs' \<Rightarrow> Inr (cs @ cs')))"

definition toSourceMapGenerator ::
  "span_store \<Rightarrow> EmitterVisitorContext \<Rightarrow> string option \<Rightarrow> int \<Rightarrow> error + SourceMapGenerator" where
  "toSourceMapGenerator store ctx file0 startsAtLine =
     (case forEach_line store (sourceLines ctx) of
        Inl e \<Rightarrow> Inl e
      | Inr cs \<Rightarrow>
          Inr \<lparr>gen_file = file0, calls = replicate (nat startsAtLine) AddLine @ cs\<rparr>)"

subsection \<open>Escaping\<close>

text \<open>
  \<^verbatim>\<open>_SINGLE_QUOTE_ESCAPE_STRING_RE = /'|\\|\n|\r|\$/g\<close> matches one character
  at a time, so \<^verbatim>\<open>input.replace\<close> with it rewrites every character on its
  own: \<open>escape_char\<close> is the callback for a character that matches, and the
  identity for any other. The quote is \<open>CHR 0x27\<close>, the backslash
  \<open>CHR 0x5C\<close>, the newline \<open>CHR 0x0A\<close> and the carriage return
  \<open>CHR 0x0D\<close>.
\<close>

definition SINGLE_QUOTE_ESCAPE_STRING_RE :: "char \<Rightarrow> bool" where
  "SINGLE_QUOTE_ESCAPE_STRING_RE c =
     (c = CHR 0x27 \<or> c = CHR 0x5C \<or> c = CHR 0x0A \<or> c = CHR 0x0D \<or> c = CHR ''$'')"

definition escape_char :: "bool \<Rightarrow> char \<Rightarrow> string" where
  "escape_char escapeDollar c =
     (if SINGLE_QUOTE_ESCAPE_STRING_RE c then
        (if c = CHR ''$'' then (if escapeDollar then [CHR 0x5C, CHR ''$''] else ''$'')
         else if c = CHR 0x0A then [CHR 0x5C, CHR ''n'']
         else if c = CHR 0x0D then [CHR 0x5C, CHR ''r'']
         else [CHR 0x5C, c])
      else [c])"

text \<open>
  \<^verbatim>\<open>_LEGAL_IDENTIFIER_RE = /^[$A-Z_][0-9A-Z_$]*$/i\<close>: with the flag
  \<^verbatim>\<open>i\<close> the class \<^verbatim>\<open>A-Z\<close> also holds the letters
  \<^verbatim>\<open>a-z\<close>.
\<close>

definition is_letter :: "char \<Rightarrow> bool" where
  "is_letter c =
     ((65 \<le> (of_char c :: nat) \<and> (of_char c :: nat) \<le> 90)
      \<or> (97 \<le> (of_char c :: nat) \<and> (of_char c :: nat) \<le> 122))"

definition is_digit :: "char \<Rightarrow> bool" where
  "is_digit c = (48 \<le> (of_char c :: nat) \<and> (of_char c :: nat) \<le> 57)"

definition identifier_start :: "char \<Rightarrow> bool" where
  "identifier_start c = (c = CHR ''$'' \<or> is_letter c \<or> c = CHR ''_'')"

definition identifier_part :: "char \<Rightarrow> bool" where
  "identifier_part c = (is_digit c \<or> is_letter c \<or> c = CHR ''_'' \<or> c = CHR ''$'')"

fun LEGAL_IDENTIFIER_RE_test :: "string \<Rightarrow> bool" where
  "LEGAL_IDENTIFIER_RE_test [] = False"
| "LEGAL_IDENTIFIER_RE_test (c # cs) = (identifier_start c \<and> list_all identifier_part cs)"

text \<open>
  \<^verbatim>\<open>escapeIdentifier(input, escapeDollar, alwaysQuote = true)\<close>; an input
  \<^verbatim>\<open>null\<close> is \<open>None\<close>, and so is the result for it.
\<close>

definition escapeIdentifier :: "string option \<Rightarrow> bool \<Rightarrow> bool \<Rightarrow> string option" where
  "escapeIdentifier input escapeDollar alwaysQuote =
     (case input of
        None \<Rightarrow> None
      | Some inp \<Rightarrow>
          (let body = concat (map (escape_char escapeDollar) inp);
               requiresQuotes = (alwaysQuote \<or> \<not> LEGAL_IDENTIFIER_RE_test body)
           in Some (if requiresQuotes then [CHR 0x27] @ body @ [CHR 0x27] else body)))"

subsection \<open>The output tree\<close>

text \<open>
  Modelled from the spec: the node classes are declared in
  \<^verbatim>\<open>output_ast.ts\<close>, which is not part of the sources at hand. The datatypes
  have one constructor for each node kind that \<^verbatim>\<open>AbstractEmitterVisitor\<close>
  renders itself, with the fields its methods read, and the span of the node
  (\<^verbatim>\<open>sourceSpan\<close>, or \<open>None\<close>) last. The node kinds whose methods are
  abstract in this class (casts, external references, function expressions, the
  declarations and try/catch) have no rendering in this file and no constructor here.

  A read of a variable and a call of a method carry a name or else a builtin tag. A
  literal is a string, a number, a boolean, \<^verbatim>\<open>null\<close> or
  \<^verbatim>\<open>undefined\<close>. The false branch of an \<^verbatim>\<open>IfStmt\<close> is a
  list, and \<^verbatim>\<open>null\<close> is the empty list: the emitter treats both alike.

  The emitter reads of a number only its text in a template, which is the text of
  JavaScript's \<^verbatim>\<open>Number::toString\<close>. A number is given here in the form that
  fixes this text: an integer of magnitude below \<open>2^53\<close> (every such integer is a
  number, and its text is its decimal digits, with \<^verbatim>\<open>0\<close> for negative zero)
  by its sign and magnitude; \<^verbatim>\<open>NaN\<close>; an infinity by its sign; and every
  other number (a fraction, or a number of magnitude \<open>2^53\<close> or more, whose text
  may have an exponent, as \<^verbatim>\<open>1e+21\<close>) by that text itself.
\<close>

type_synonym BuiltinMethod = nat

datatype var_ref = VarName string | VarBuiltin BuiltinVar

datatype method_ref = MethodName string | MethodBuiltin BuiltinMethod

datatype Number = SafeInteger bool "53 word" | NaN | Infinity bool | OtherNumber string

datatype LiteralValue =
  LitString string | LitNumber Number | LitBool bool | LitNull | LitUndefined

datatype Expression =
    ReadVarExpr var_ref "span_ref option"
  | WriteVarExpr string Expression "span_ref option"
  | WriteKeyExpr Expression Expression Expression "span_ref option"
  | WritePropExpr Expression string Expression "span_ref option"
  | InvokeMethodExpr Expression method_ref "Expression list" "span_ref option"
  | InvokeFunctionExpr Expression "Expression list" "span_ref option"
  | InstantiateExpr Expression "Expression list" "span_ref option"
  | LiteralExpr LiteralValue "span_ref option"
  | ConditionalExpr Expression Expression Expression "span_ref option"
  | NotExpr Expression "span_ref option"
  | BinaryOperatorExpr BinaryOperator Expression Expression "span_ref option"
  | ReadPropExpr Expression string "span_ref option"
  | ReadKeyExpr Expression Expression "span_ref option"
  | LiteralArrayExpr "Expression list" "span_ref option"
  | LiteralMapExpr "LiteralMapEntry list" "span_ref option"
and LiteralMapEntry = LiteralMapEntry string Expression bool

datatype Statement =
    ExpressionStatement Expression "span_ref option"
  | ReturnStatement Expression "span_ref option"
  | IfStmt Expression "Statement list" "Statement list" "span_ref option"
  | ThrowStmt Expression "span_ref option"
  | CommentStmt string "span_ref option"

subsection \<open>The visitor\<close>

text \<open>
  The fields of an emitter: the flag \<^verbatim>\<open>_escapeDollarInStrings\<close> and the
  abstract method \<^verbatim>\<open>getBuiltinMethodName\<close>, which a subclass supplies and
  which answers a name or \<^verbatim>\<open>null\<close>.
\<close>

record AbstractEmitterVisitor =
  escapeDollarInStrings :: bool
  getBuiltinMethodName :: "BuiltinMethod \<Rightarrow> string option"

definition CATCH_ERROR_VAR_name :: string where
  "CATCH_ERROR_VAR_name = ''error''"

definition CATCH_STACK_VAR_name :: string where
  "CATCH_STACK_VAR_name = ''stack''"

text \<open>
  The template \<^verbatim>\<open>`${value}`\<close> of a value that is not a string: the text of
  the number, \<^verbatim>\<open>true\<close>, \<^verbatim>\<open>false\<close>, \<^verbatim>\<open>null\<close> or
  \<^verbatim>\<open>undefined\<close>.
\<close>

fun digits_of_nat :: "nat \<Rightarrow> string" where
  "digits_of_nat n =
     (if n < 10 then [''0123456789'' ! n]
      else digits_of_nat (n div 10) @ [''0123456789'' ! (n mod 10)])"

fun Number_toString :: "Number \<Rightarrow> string" where
  "Number_toString (SafeInteger negative m) =
     (if negative \<and> m \<noteq> 0 then ''-'' else []) @ digits_of_nat (unat m)"
| "Number_toString NaN = ''NaN''"
| "Number_toString (Infinity negative) = (if negative then ''-Infinity'' else ''Infinity'')"
| "Number_toString (OtherNumber text) = text"

fun template_of_literal :: "LiteralValue \<Rightarrow> string" where
  "template_of_literal (LitString s) = s"
| "template_of_literal (LitNumber n) = Number_toString n"
| "template_of_literal (LitBool b) = (if b then ''true'' else ''false'')"
| "template_of_literal LitNull = ''null''"
| "template_of_literal LitUndefined = ''undefined''"

text \<open>The two \<^verbatim>\<open>switch\<close> statements, with \<open>Inl\<close> for their default case.\<close>

fun builtinVarName :: "BuiltinVar \<Rightarrow> error + string" where
  "builtinVarName Super = Inr ''super''"
| "builtinVarName This = Inr ''this''"
| "builtinVarName CatchError = Inr CATCH_ERROR_VAR_name"
| "builtinVarName CatchStack = Inr CATCH_STACK_VAR_name"
| "builtinVarName b = Inl (Unknown_builtin_variable b)"

fun opStr :: "BinaryOperator \<Rightarrow> error + string" where
  "opStr Equals = Inr ''==''"
| "opStr Identical = Inr ''===''"
| "opStr NotEquals = Inr ''!=''"
| "opStr NotIdentical = Inr ''!==''"
| "opStr And = Inr ''&&''"
| "opStr Or = Inr ''||''"
| "opStr Plus_op = Inr ''+''"
| "opStr Minus = Inr ''-''"
| "opStr Divide = Inr ''/''"
| "opStr Multiply = Inr ''*''"
| "opStr Modulo = Inr ''%''"
| "opStr Lower = Inr ''<''"
| "opStr LowerEquals = Inr ''<=''"
| "opStr Bigger = Inr ''>''"
| "opStr BiggerEquals = Inr ''>=''"
| "opStr op = Inl (Unknown_operator op)"

text \<open>
  \<^verbatim>\<open>visitAllObjects(handler, expressions, ctx, separator, newLine)\<close>: the loop
  over the index \<open>i\<close>, then the closing \<^verbatim>\<open>println()\<close>. The handler
  takes the context it writes to.
\<close>

lemma andThen_cong [fundef_cong]:
  "m = m' \<Longrightarrow> (\<And>x. m' = Inr x \<Longrightarrow> f x = g x) \<Longrightarrow> andThen m f = andThen m' g"
  by (cases m') (simp_all add: andThen_def)

fun visitAllObjects_loop ::
  "('a \<Rightarrow> EmitterVisitorContext \<Rightarrow> error + EmitterVisitorContext) \<Rightarrow> 'a list \<Rightarrow> nat
     \<Rightarrow> EmitterVisitorContext \<Rightarrow> string \<Rightarrow> bool \<Rightarrow> error + EmitterVisitorContext" where
  "visitAllObjects_loop handler [] i ctx separator newLine = Inr ctx"
| "visitAllObjects_loop handler (x # xs) i ctx separator newLine =
     andThen (if i > 0 then print ctx None separator newLine else Inr ctx)
       (\<lambda>ctx. andThen (handler x ctx)
          (\<lambda>ctx. visitAllObjects_loop handler xs (i + 1) ctx separator newLine))"

definition visitAllObjects ::
  "('a \<Rightarrow> EmitterVisitorContext \<Rightarrow> error + EmitterVisitorContext) \<Rightarrow> 'a list
     \<Rightarrow> EmitterVisitorContext \<Rightarrow> string \<Rightarrow> bool \<Rightarrow> error + EmitterVisitorContext" where
  "visitAllObjects handler expressions ctx separator newLine =
     andThen (visitAllObjects_loop handler expressions 0 ctx separator newLine)
       (\<lambda>ctx. if newLine then println ctx None [] else Inr ctx)"

lemma visitAllObjects_loop_handler:
  "(\<And>x c. x \<in> set xs \<Longrightarrow> h x c = g x c)
     \<Longrightarrow> visitAllObjects_loop h xs i ctx sep nl = visitAllObjects_loop g xs i ctx sep nl"
proof (induction xs arbitrary: i ctx)
  case Nil
  then show ?case by simp
next
  case (Cons y ys)
  have tl: "visitAllObjects_loop h ys k c sep nl = visitAllObjects_loop g ys k c sep nl" for k c
    using Cons.IH Cons.prems by simp
  have hd: "h y c = g y c" for c
    using Cons.prems by simp
  show ?case by (simp add: tl hd)
qed

lemma visitAllObjects_loop_cong [fundef_cong]:
  "xs = ys \<Longrightarrow> i = j \<Longrightarrow> ctx = ctx' \<Longrightarrow> sep = sep' \<Longrightarrow> nl = nl'
     \<Longrightarrow> (\<And>x c. x \<in> set ys \<Longrightarrow> h x c = g x c)
     \<Longrightarrow> visitAllObjects_loop h xs i ctx sep nl = visitAllObjects_loop g ys j ctx' sep' nl'"
  using visitAllObjects_loop_handler [of ys h g j ctx' sep' nl'] by simp

lemma visitAllObjects_cong [fundef_cong]:
  "xs = ys \<Longrightarrow> ctx = ctx' \<Longrightarrow> sep = sep' \<Longrightarrow> nl = nl'
     \<Longrightarrow> (\<And>x c. x \<in> set ys \<Longrightarrow> h x c = g x c)
     \<Longrightarrow> visitAllObjects h xs ctx sep nl = visitAllObjects g ys ctx' sep' nl'"
  unfolding visitAllObjects_def
  using visitAllObjects_loop_handler [of ys h g 0 ctx' sep' nl'] by simp

fun visitExpression ::
  "AbstractEmitterVisitor \<Rightarrow> Expression \<Rightarrow> EmitterVisitorContext \<Rightarrow> error + EmitterVisitorContext"
and visitMapEntry ::
  "AbstractEmitterVisitor \<Rightarrow> span_ref option \<Rightarrow> LiteralMapEntry \<Rightarrow> EmitterVisitorContext
     \<Rightarrow> error + EmitterVisitorContext" where
  "visitExpression em (ReadVarExpr v sp) ctx =
     andThen (case v of VarName varName \<Rightarrow> Inr varName | VarBuiltin b \<Rightarrow> builtinVarName b)
       (\<lambda>varName. print ctx sp varName False)"
| "visitExpression em (WriteVarExpr name0 val sp) ctx =
     andThen (lineIsEmpty ctx) (\<lambda>lineWasEmpty.
     andThen (if \<not> lineWasEmpty then print ctx sp ''('' False else Inr ctx) (\<lambda>ctx.
     andThen (print ctx sp (name0 @ '' = '') False) (\<lambda>ctx.
     andThen (visitExpression em val ctx) (\<lambda>ctx.
     if \<not> lineWasEmpty then print ctx sp '')'' False else Inr ctx))))"
| "visitExpression em (WriteKeyExpr receiver index val sp) ctx =
     andThen (lineIsEmpty ctx) (\<lambda>lineWasEmpty.
     andThen (if \<not> lineWasEmpty then print ctx sp ''('' False else Inr ctx) (\<lambda>ctx.
     andThen (visitExpression em receiver ctx) (\<lambda>ctx.
     andThen (print ctx sp ''['' False) (\<lambda>ctx.
     andThen (visitExpression em index ctx) (\<lambda>ctx.
     andThen (print ctx sp ''] = '' False) (\<lambda>ctx.
     andThen (visitExpression em val ctx) (\<lambda>ctx.
     if \<not> lineWasEmpty then print ctx sp '')'' False else Inr ctx)))))))"
| "visitExpression em (WritePropExpr receiver name0 val sp) ctx =
     andThen (lineIsEmpty ctx) (\<lambda>lineWasEmpty.
     andThen (if \<not> lineWasEmpty then print ctx sp ''('' False else Inr ctx) (\<lambda>ctx.
     andThen (visitExpression em receiver ctx) (\<lambda>ctx.
     andThen (print ctx sp (''.'' @ name0 @ '' = '') False) (\<lambda>ctx.
     andThen (visitExpression em val ctx) (\<lambda>ctx.
     if \<not> lineWasEmpty then print ctx sp '')'' False else Inr ctx)))))"
| "visitExpression em (InvokeMethodExpr receiver m args sp) ctx =
     andThen (visitExpression em receiver ctx) (\<lambda>ctx.
     case (case m of MethodName n \<Rightarrow> Some n | MethodBuiltin b \<Rightarrow> getBuiltinMethodName em b) of
       None \<Rightarrow> Inr ctx
     | Some name0 \<Rightarrow>
         andThen (print ctx sp (''.'' @ name0 @ ''('') False) (\<lambda>ctx.
         andThen (visitAllObjects (visitExpression em) args ctx '','' False) (\<lambda>ctx.
         print ctx sp '')'' False)))"
| "visitExpression em (InvokeFunctionExpr fn args sp) ctx =
     andThen (visitExpression em fn ctx) (\<lambda>ctx.
     andThen (print ctx sp ''('' False) (\<lambda>ctx.
     andThen (visitAllObjects (visitExpression em) args ctx '','' False) (\<lambda>ctx.
     print ctx sp '')'' False)))"
| "visitExpression em (InstantiateExpr classExpr args sp) ctx =
     andThen (print ctx sp ''new '' False) (\<lambda>ctx.
     andThen (visitExpression em classExpr ctx) (\<lambda>ctx.
     andThen (print ctx sp ''('' False) (\<lambda>ctx.
     andThen (visitAllObjects (visitExpression em) args ctx '','' False) (\<lambda>ctx.
     print ctx sp '')'' False))))"
| "visitExpression em (LiteralExpr v sp) ctx =
     (case v of
        LitString s \<Rightarrow>
          (case escapeIdentifier (Some s) (escapeDollarInStrings em) True of
             None \<Rightarrow> Inl TypeError
           | Some t \<Rightarrow> print ctx sp t False)
      | _ \<Rightarrow> print ctx sp (template_of_literal v) False)"
| "visitExpression em (ConditionalExpr condition trueCase falseCase sp) ctx =
     andThen (print ctx sp ''('' False) (\<lambda>ctx.
     andThen (visitExpression em condition ctx) (\<lambda>ctx.
     andThen (print ctx sp ''? '' False) (\<lambda>ctx.
     andThen (visitExpression em trueCase ctx) (\<lambda>ctx.
     andThen (print ctx sp '': '' False) (\<lambda>ctx.
     andThen (visitExpression em falseCase ctx) (\<lambda>ctx.
     print ctx sp '')'' False))))))"
| "visitExpression em (NotExpr condition sp) ctx =
     andThen (print ctx sp ''!'' False) (\<lambda>ctx. visitExpression em condition ctx)"
| "visitExpression em (BinaryOperatorExpr operator lhs rhs sp) ctx =
     andThen (opStr operator) (\<lambda>opStr0.
     andThen (print ctx sp ''('' False) (\<lambda>ctx.
     andThen (visitExpression em lhs ctx) (\<lambda>ctx.
     andThen (print ctx sp ('' '' @ opStr0 @ '' '') False) (\<lambda>ctx.
     andThen (visitExpression em rhs ctx) (\<lambda>ctx.
     print ctx sp '')'' False)))))"
| "visitExpression em (ReadPropExpr receiver name0 sp) ctx =
     andThen (visitExpression em receiver ctx) (\<lambda>ctx.
     andThen (print ctx sp ''.'' False) (\<lambda>ctx.
     print ctx sp name0 False))"
| "visitExpression em (ReadKeyExpr receiver index sp) ctx =
     andThen (visitExpression em receiver ctx) (\<lambda>ctx.
     andThen (print ctx sp ''['' False) (\<lambda>ctx.
     andThen (visitExpression em index ctx) (\<lambda>ctx.
     print ctx sp '']'' False)))"
| "visitExpression em (LiteralArrayExpr entries sp) ctx =
     (let useNewLine = (length entries > 1) in
      andThen (print ctx sp ''['' useNewLine) (\<lambda>ctx.
      andThen (incIndent ctx) (\<lambda>ctx.
      andThen (visitAllObjects (visitExpression em) entries ctx '','' useNewLine) (\<lambda>ctx.
      andThen (decIndent ctx) (\<lambda>ctx.
      print ctx sp '']'' useNewLine)))))"
| "visitExpression em (LiteralMapExpr entries sp) ctx =
     (let useNewLine = (length entries > 1) in
      andThen (print ctx sp ''{'' useNewLine) (\<lambda>ctx.
      andThen (incIndent ctx) (\<lambda>ctx.
      andThen (visitAllObjects (visitMapEntry em sp) entries ctx '','' useNewLine) (\<lambda>ctx.
      andThen (decIndent ctx) (\<lambda>ctx.
      print ctx sp ''}'' useNewLine)))))"
| "visitMapEntry em sp (LiteralMapEntry key val quoted) ctx =
     andThen
       (print ctx sp
          ((case escapeIdentifier (Some key) (escapeDollarInStrings em) quoted of
              None \<Rightarrow> ''null'' | Some t \<Rightarrow> t) @ '': '') False)
       (\<lambda>ctx. visitExpression em val ctx)"

text \<open>
  \<^verbatim>\<open>stmt.comment.split('\n')\<close>: the pieces between the newlines, at least
  one.
\<close>

fun split_newline :: "string \<Rightarrow> string list" where
  "split_newline [] = [[]]"
| "split_newline (c # cs) =
     (if c = CHR 0x0A then [] # split_newline cs
      else (case split_newline cs of [] \<Rightarrow> [[c]] | w # ws \<Rightarrow> (c # w) # ws))"

fun forEach_println ::
  "span_ref option \<Rightarrow> string list \<Rightarrow> EmitterVisitorContext \<Rightarrow> error + EmitterVisitorContext" where
  "forEach_println sp [] ctx = Inr ctx"
| "forEach_println sp (l # ls) ctx =
     andThen (println ctx sp (''// '' @ l)) (\<lambda>ctx. forEach_println sp ls ctx)"

fun visitStatement ::
  "AbstractEmitterVisitor \<Rightarrow> Statement \<Rightarrow> EmitterVisitorContext \<Rightarrow> error + EmitterVisitorContext"
and visitAllStatements ::
  "AbstractEmitterVisitor \<Rightarrow> Statement list \<Rightarrow> EmitterVisitorContext \<Rightarrow> error + EmitterVisitorContext" where
  "visitStatement em (ExpressionStatement expr sp) ctx =
     andThen (visitExpression em expr ctx) (\<lambda>ctx. println ctx sp '';'')"
| "visitStatement em (ReturnStatement val sp) ctx =
     andThen (print ctx sp ''return '' False) (\<lambda>ctx.
     andThen (visitExpression em val ctx) (\<lambda>ctx.
     println ctx sp '';''))"
| "visitStatement em (IfStmt condition trueCase falseCase sp) ctx =
     andThen (print ctx sp ''if ('' False) (\<lambda>ctx.
     andThen (visitExpression em condition ctx) (\<lambda>ctx.
     andThen (print ctx sp '') {'' False) (\<lambda>ctx.
     let hasElseCase = (falseCase \<noteq> []) in
     andThen
       (if length trueCase \<le> 1 \<and> \<not> hasElseCase then
          andThen (print ctx sp '' '' False) (\<lambda>ctx.
          andThen (visitAllStatements em trueCase ctx) (\<lambda>ctx.
          andThen (removeEmptyLastLine ctx) (\<lambda>ctx.
          print ctx sp '' '' False)))
        else
          andThen (println ctx None []) (\<lambda>ctx.
          andThen (incIndent ctx) (\<lambda>ctx.
          andThen (visitAllStatements em trueCase ctx) (\<lambda>ctx.
          andThen (decIndent ctx) (\<lambda>ctx.
          if hasElseCase then
            andThen (println ctx sp ''} else {'') (\<lambda>ctx.
            andThen (incIndent ctx) (\<lambda>ctx.
            andThen (visitAllStatements em falseCase ctx) (\<lambda>ctx.
            decIndent ctx)))
          else Inr ctx)))))
       (\<lambda>ctx. println ctx sp ''}''))))"
| "visitStatement em (ThrowStmt err sp) ctx =
     andThen (print ctx sp ''throw '' False) (\<lambda>ctx.
     andThen (visitExpression em err ctx) (\<lambda>ctx.
     println ctx sp '';''))"
| "visitStatement em (CommentStmt comment sp) ctx =
     forEach_println sp (split_newline comment) ctx"
| "visitAllStatements em [] ctx = Inr ctx"
| "visitAllStatements em (stmt # stmts) ctx =
     andThen (visitStatement em stmt ctx) (\<lambda>ctx. visitAllStatements em stmts ctx)"

section \<open>Notions used to state the properties\<close>

subsection \<open>Mapping entries of a line\<close>

text \<open>
  The mapping entries of a line as the specification describes them, in one pass over
  the fragments from left to right: \<open>prev\<close> is the span of the run in progress
  (\<open>None\<close> before the first fragment with a span), \<open>c\<close> the column of the next
  fragment. A fragment without span changes nothing but the column; a fragment with the
  span of the run in progress continues that run; a fragment with another span starts
  a run, and the run gets one entry: the column at its start and its span.
\<close>

fun entries_after ::
  "span_ref option \<Rightarrow> int \<Rightarrow> span_ref option list \<Rightarrow> string list \<Rightarrow> (int \<times> span_ref) list" where
  "entries_after prev c (None # ss) (p # ps) = entries_after prev (c + int (length p)) ss ps"
| "entries_after prev c (Some s # ss) (p # ps) =
     (if prev = Some s then [] else [(c, s)]) @ entries_after (Some s) (c + int (length p)) ss ps"
| "entries_after prev c ss ps = []"

definition line_entries :: "EmittedLine \<Rightarrow> (int \<times> span_ref) list" where
  "line_entries l =
     entries_after None (indent l * int (length INDENT_WITH)) (srcSpans l) (parts l)"

text \<open>The two calls the encoder receives for an entry.\<close>

definition entry_calls :: "span_store \<Rightarrow> int \<times> span_ref \<Rightarrow> encoder_call list" where
  "entry_calls store e =
     [AddSource (url (loc_file (start (store (snd e))))) (content (loc_file (start (store (snd e))))),
      AddMapping (fst e) (url (loc_file (start (store (snd e)))))
        (loc_line (start (store (snd e)))) (loc_col (start (store (snd e))))]"

text \<open>The spans of the fragments of a line that have one, in order.\<close>

fun spans_of :: "span_ref option list \<Rightarrow> span_ref list" where
  "spans_of [] = []"
| "spans_of (None # ss) = spans_of ss"
| "spans_of (Some s # ss) = s # spans_of ss"

text \<open>
  The column of the fragment \<open>i\<close> of a line: the indent of the line times the width
  of the indent unit, plus the widths of the fragments before it.
\<close>

definition fragment_column :: "EmittedLine \<Rightarrow> nat \<Rightarrow> int" where
  "fragment_column l i =
     indent l * int (length INDENT_WITH) + sum_list (map (\<lambda>p. int (length p)) (take i (parts l)))"

text \<open>
  The span of the nearest fragment with a span before the fragment \<open>i\<close>, or
  \<open>prev\<close> when there is none. The fragment \<open>i\<close> starts an entry when it has a
  span and that span is not the one of the nearest fragment with a span before it.
\<close>

definition preceding_span :: "span_ref option \<Rightarrow> span_ref option list \<Rightarrow> nat \<Rightarrow> span_ref option" where
  "preceding_span prev ss i =
     (case filter (\<lambda>x. x \<noteq> None) (take i ss) of [] \<Rightarrow> prev | x # xs \<Rightarrow> last (x # xs))"

definition starts_entry :: "span_ref option \<Rightarrow> span_ref option list \<Rightarrow> nat \<Rightarrow> bool" where
  "starts_entry prev ss i = (ss ! i \<noteq> None \<and> preceding_span prev ss i \<noteq> ss ! i)"

text \<open>Reading a sequence of calls.\<close>

fun mapped_positions :: "encoder_call list \<Rightarrow> (string \<times> int \<times> int) list" where
  "mapped_positions [] = []"
| "mapped_positions (AddMapping g u l c # cs) = (u, l, c) # mapped_positions cs"
| "mapped_positions (x # cs) = mapped_positions cs"

fun is_AddMapping :: "encoder_call \<Rightarrow> bool" where
  "is_AddMapping (AddMapping g u l c) = True"
| "is_AddMapping x = False"

fun is_AddSource :: "encoder_call \<Rightarrow> bool" where
  "is_AddSource (AddSource u c) = True"
| "is_AddSource x = False"

definition source_position :: "span_store \<Rightarrow> span_ref \<Rightarrow> string \<times> int \<times> int" where
  "source_position store s =
     (url (loc_file (start (store s))), loc_line (start (store s)), loc_col (start (store s)))"

definition mapping_at :: "span_store \<Rightarrow> EmittedLine \<Rightarrow> nat \<Rightarrow> encoder_call" where
  "mapping_at store l i =
     (case source_position store (the (srcSpans l ! i)) of
        (u, sl, sc) \<Rightarrow> AddMapping (fragment_column l i) u sl sc)"

text \<open>
  A store for the examples: every span lies in the file \<^verbatim>\<open>a.ts\<close>, at line 0
  and at the column that is its reference.
\<close>

definition example_store :: span_store where
  "example_store s =
     \<lparr>start = \<lparr>loc_file = \<lparr>content = ''ab'', url = ''a.ts''\<rparr>, loc_line = 0, loc_col = int s\<rparr>\<rparr>"

definition example_lines :: "EmittedLine list" where
  "example_lines =
     [\<lparr>parts = [''a'', ''b''], srcSpans = [Some 1, Some 1], indent = 0\<rparr>,
      \<lparr>parts = [''c''], srcSpans = [None], indent = 0\<rparr>,
      \<lparr>parts = [''d'', ''e''], srcSpans = [Some 1, Some 2], indent = 0\<rparr>]"

subsection \<open>Tags the emitter knows\<close>

text \<open>
  The four builtin variables with a pseudo-identifier, and the fifteen operators of the
  table.
\<close>

definition recognized_builtins :: "BuiltinVar list" where
  "recognized_builtins = [Super, This, CatchError, CatchStack]"

definition operator_table :: "BinaryOperator list" where
  "operator_table =
     [Equals, Identical, NotEquals, NotIdentical, And, Or, Plus_op, Minus, Divide, Multiply,
      Modulo, Lower, LowerEquals, Bigger, BiggerEquals]"

text \<open>A tree is well tagged when every builtin variable and every operator in it is known.\<close>

fun known_tags :: "Expression \<Rightarrow> bool"
and known_tags_entry :: "LiteralMapEntry \<Rightarrow> bool" where
  "known_tags (ReadVarExpr v sp) =
     (case v of VarName n \<Rightarrow> True | VarBuiltin b \<Rightarrow> b \<in> set recognized_builtins)"
| "known_tags (WriteVarExpr n v sp) = known_tags v"
| "known_tags (WriteKeyExpr r i v sp) = (known_tags r \<and> known_tags i \<and> known_tags v)"
| "known_tags (WritePropExpr r n v sp) = (known_tags r \<and> known_tags v)"
| "known_tags (InvokeMethodExpr r m args sp) = (known_tags r \<and> (\<forall>a \<in> set args. known_tags a))"
| "known_tags (InvokeFunctionExpr f args sp) = (known_tags f \<and> (\<forall>a \<in> set args. known_tags a))"
| "known_tags (InstantiateExpr c args sp) = (known_tags c \<and> (\<forall>a \<in> set args. known_tags a))"
| "known_tags (LiteralExpr v sp) = True"
| "known_tags (ConditionalExpr c t f sp) = (known_tags c \<and> known_tags t \<and> known_tags f)"
| "known_tags (NotExpr c sp) = known_tags c"
| "known_tags (BinaryOperatorExpr op l r sp) =
     (op \<in> set operator_table \<and> known_tags l \<and> known_tags r)"
| "known_tags (ReadPropExpr r n sp) = known_tags r"
| "known_tags (ReadKeyExpr r i sp) = (known_tags r \<and> known_tags i)"
| "known_tags (LiteralArrayExpr es sp) = (\<forall>e \<in> set es. known_tags e)"
| "known_tags (LiteralMapExpr es sp) = (\<forall>e \<in> set es. known_tags_entry e)"
| "known_tags_entry (LiteralMapEntry k v q) = known_tags v"

fun known_tags_stmt :: "Statement \<Rightarrow> bool" where
  "known_tags_stmt (ExpressionStatement e sp) = known_tags e"
| "known_tags_stmt (ReturnStatement e sp) = known_tags e"
| "known_tags_stmt (IfStmt c ts fs sp) =
     (known_tags c \<and> (\<forall>s \<in> set ts. known_tags_stmt s) \<and> (\<forall>s \<in> set fs. known_tags_stmt s))"
| "known_tags_stmt (ThrowStmt e sp) = known_tags e"
| "known_tags_stmt (CommentStmt c sp) = True"

text \<open>The diagnostics of the two fatal conditions: they name a tag that is not known.\<close>

definition fatal_tag :: "error \<Rightarrow> bool" where
  "fatal_tag e =
     (case e of
        TypeError \<Rightarrow> False
      | Unknown_builtin_variable b \<Rightarrow> b \<notin> set recognized_builtins
      | Unknown_operator op \<Rightarrow> op \<notin> set operator_table)"

subsection \<open>Pre- and postconditions of a rendering step\<close>

text \<open>
  \<open>hoare P f Q E\<close>: from a context that satisfies \<open>P\<close>, the step \<open>f\<close> returns
  a context that satisfies \<open>Q\<close> or raises an error that satisfies \<open>E\<close>.
  \<open>ready k\<close>: there is a current line, and the indent counter is \<open>k\<close>.
  \<open>fresh_line k\<close>: moreover the current line is a new, empty one, after at least
  one other. \<open>dirty k\<close>: the current line has a fragment.
\<close>

definition hoare ::
  "(EmitterVisitorContext \<Rightarrow> bool) \<Rightarrow> (EmitterVisitorContext \<Rightarrow> error + EmitterVisitorContext)
     \<Rightarrow> (EmitterVisitorContext \<Rightarrow> bool) \<Rightarrow> (error \<Rightarrow> bool) \<Rightarrow> bool" where
  "hoare P f Q E = (\<forall>ctx. P ctx \<longrightarrow> (case f ctx of Inl e \<Rightarrow> E e | Inr c \<Rightarrow> Q c))"

definition ready :: "int \<Rightarrow> EmitterVisitorContext \<Rightarrow> bool" where
  "ready k ctx = (ctx_lines ctx \<noteq> [] \<and> ctx_indent ctx = k)"

definition fresh_line :: "int \<Rightarrow> EmitterVisitorContext \<Rightarrow> bool" where
  "fresh_line k ctx =
     (2 \<le> length (ctx_lines ctx) \<and> last (ctx_lines ctx) = new_EmittedLine k \<and> ctx_indent ctx = k)"

definition tag_errors :: "bool \<Rightarrow> error \<Rightarrow> bool" where
  "tag_errors strict e = (\<not> strict \<and> fatal_tag e)"

definition dirty :: "int \<Rightarrow> EmitterVisitorContext \<Rightarrow> bool" where
  "dirty k ctx = (ready k ctx \<and> parts (last (ctx_lines ctx)) \<noteq> [])"

text \<open>An emitter for the examples: no dollar escaping, no builtin method has a name.\<close>

definition example_emitter :: AbstractEmitterVisitor where
  "example_emitter = \<lparr>escapeDollarInStrings = False, getBuiltinMethodName = (\<lambda>m. None)\<rparr>"

subsection \<open>Rendered text\<close>



text \<open>The text of the context a rendering returns: \<^verbatim>\<open>toSource()\<close> after it.\<close>

definition rendered :: "error + EmitterVisitorContext \<Rightarrow> error + string" where
  "rendered r = (case r of Inl e \<Rightarrow> Inl e | Inr c \<Rightarrow> Inr (toSource c))"

text \<open>
  The policy for an assignment used as an expression: on a line without fragment the
  assignment as it is, on a line with a fragment the assignment between parentheses.
\<close>

definition wrapped_unless_line_empty ::
  "EmitterVisitorContext \<Rightarrow> span_ref option
     \<Rightarrow> (EmitterVisitorContext \<Rightarrow> error + EmitterVisitorContext)
     \<Rightarrow> error + EmitterVisitorContext" where
  "wrapped_unless_line_empty ctx sp assignment =
     (if parts (last (ctx_lines ctx)) = [] then assignment ctx
      else andThen (print ctx sp ''('' False) (\<lambda>c.
           andThen (assignment c) (\<lambda>c. print c sp '')'' False)))"

subsection \<open>The primitives on a context that has a line\<close>

text \<open>
  What \<^verbatim>\<open>print\<close>, \<^verbatim>\<open>incIndent\<close> and \<^verbatim>\<open>decIndent\<close> return
  on a context that has a current line: \<open>emit\<close> appends a fragment to the current
  line (an empty text appends nothing), \<open>open_line\<close> starts a new line at the current
  indent, \<open>with_indent\<close> sets the indent counter and the indent of the current line.
\<close>

definition emit :: "EmitterVisitorContext \<Rightarrow> span_ref option \<Rightarrow> string \<Rightarrow> EmitterVisitorContext" where
  "emit ctx sp p =
     (if p = [] then ctx
      else ctx\<lparr>ctx_lines :=
             butlast (ctx_lines ctx)
             @ [(last (ctx_lines ctx))\<lparr>parts := parts (last (ctx_lines ctx)) @ [p],
                                        srcSpans := srcSpans (last (ctx_lines ctx)) @ [sp]\<rparr>]\<rparr>)"

definition open_line :: "EmitterVisitorContext \<Rightarrow> EmitterVisitorContext" where
  "open_line ctx = ctx\<lparr>ctx_lines := ctx_lines ctx @ [new_EmittedLine (ctx_indent ctx)]\<rparr>"

definition with_indent :: "int \<Rightarrow> EmitterVisitorContext \<Rightarrow> EmitterVisitorContext" where
  "with_indent i ctx =
     ctx\<lparr>ctx_indent := i,
         ctx_lines := butlast (ctx_lines ctx) @ [(last (ctx_lines ctx))\<lparr>indent := i\<rparr>]\<rparr>"




subsection \<open>Sequences of calls on a context\<close>

text \<open>
  A call of \<^verbatim>\<open>print\<close> (\<^verbatim>\<open>println\<close> is \<^verbatim>\<open>print\<close> with
  \<^verbatim>\<open>newLine\<close>), of \<^verbatim>\<open>incIndent\<close> or of \<^verbatim>\<open>decIndent\<close>, and the
  run of a sequence of calls on a context.
\<close>

datatype ctx_op = Print "span_ref option" string bool | IncIndent | DecIndent

fun apply_op :: "ctx_op \<Rightarrow> EmitterVisitorContext \<Rightarrow> error + EmitterVisitorContext" where
  "apply_op (Print frm part newLine) ctx = print ctx frm part newLine"
| "apply_op IncIndent ctx = incIndent ctx"
| "apply_op DecIndent ctx = decIndent ctx"

fun run_ops :: "ctx_op list \<Rightarrow> EmitterVisitorContext \<Rightarrow> error + EmitterVisitorContext" where
  "run_ops [] ctx = Inr ctx"
| "run_ops (op # ops) ctx = andThen (apply_op op ctx) (run_ops ops)"






text \<open>Every line has as many parts as spans, and no empty part.\<close>

definition lines_wf :: "EmitterVisitorContext \<Rightarrow> bool" where
  "lines_wf ctx =
     (\<forall>l \<in> set (ctx_lines ctx). length (parts l) = length (srcSpans l) \<and> (\<forall>p \<in> set (parts l). p \<noteq> []))"

subsection \<open>Trees that render within a line\<close>

text \<open>
  An expression is \<open>single_line\<close> when no literal array and no literal map in it has
  more than one entry: these are the only expressions whose rendering ends a line. A
  statement is \<open>single_line_stmt\<close> when its expressions are, an if statement in it has
  at most one statement in its true branch and no false branch, and a comment in it has
  no line break.
\<close>

fun single_line :: "Expression \<Rightarrow> bool"
and single_line_entry :: "LiteralMapEntry \<Rightarrow> bool" where
  "single_line (ReadVarExpr v sp) = True"
| "single_line (WriteVarExpr n v sp) = single_line v"
| "single_line (WriteKeyExpr r i v sp) = (single_line r \<and> single_line i \<and> single_line v)"
| "single_line (WritePropExpr r n v sp) = (single_line r \<and> single_line v)"
| "single_line (InvokeMethodExpr r m args sp) = (single_line r \<and> (\<forall>a \<in> set args. single_line a))"
| "single_line (InvokeFunctionExpr f args sp) = (single_line f \<and> (\<forall>a \<in> set args. single_line a))"
| "single_line (InstantiateExpr c args sp) = (single_line c \<and> (\<forall>a \<in> set args. single_line a))"
| "single_line (LiteralExpr v sp) = True"
| "single_line (ConditionalExpr c t f sp) = (single_line c \<and> single_line t \<and> single_line f)"
| "single_line (NotExpr c sp) = single_line c"
| "single_line (BinaryOperatorExpr op l r sp) = (single_line l \<and> single_line r)"
| "single_line (ReadPropExpr r n sp) = single_line r"
| "single_line (ReadKeyExpr r i sp) = (single_line r \<and> single_line i)"
| "single_line (LiteralArrayExpr es sp) = (length es \<le> 1 \<and> (\<forall>e \<in> set es. single_line e))"
| "single_line (LiteralMapExpr es sp) = (length es \<le> 1 \<and> (\<forall>e \<in> set es. single_line_entry e))"
| "single_line_entry (LiteralMapEntry k v q) = single_line v"

fun single_line_stmt :: "Statement \<Rightarrow> bool" where
  "single_line_stmt (ExpressionStatement e sp) = single_line e"
| "single_line_stmt (ReturnStatement e sp) = single_line e"
| "single_line_stmt (IfStmt c ts fs sp) =
     (single_line c \<and> length ts \<le> 1 \<and> fs = [] \<and> (\<forall>s \<in> set ts. single_line_stmt s))"
| "single_line_stmt (ThrowStmt e sp) = single_line e"
| "single_line_stmt (CommentStmt c sp) = (CHR 0x0A \<notin> set c)"

subsection \<open>Properties that every step of a rendering keeps\<close>

text \<open>
  \<open>kept_by_steps multi R F\<close>: the property \<open>R n\<close> of a context, where \<open>n\<close>
  counts the indent levels entered, holds only of contexts with a current line and is
  kept when a fragment is appended; entering a level leads from \<open>R n\<close> to
  \<open>R (n + 1)\<close> and leaving it leads back; starting a new line leads from \<open>R n\<close>
  to \<open>F n\<close>, which holds only of contexts whose current line is empty and not the
  only one, and removing that line leads back to \<open>R n\<close>. With \<open>multi\<close>, the
  rendering may go on after a new line: then \<open>F n\<close> implies \<open>R n\<close> and is
  kept when a level is entered or left.
\<close>

definition kept_by_steps ::
  "bool \<Rightarrow> (nat \<Rightarrow> EmitterVisitorContext \<Rightarrow> bool) \<Rightarrow> (nat \<Rightarrow> EmitterVisitorContext \<Rightarrow> bool) \<Rightarrow> bool" where
  "kept_by_steps multi R F =
     (\<forall>n c. (R n c \<longrightarrow> ctx_lines c \<noteq> [])
        \<and> (R n c \<longrightarrow> (\<forall>sp p. R n (emit c sp p)))
        \<and> (R n c \<longrightarrow> F n (open_line c))
        \<and> (R n c \<longrightarrow> R (Suc n) (with_indent (ctx_indent c + 1) c))
        \<and> (R (Suc n) c \<longrightarrow> R n (with_indent (ctx_indent c - 1) c))
        \<and> (F n c \<longrightarrow> ctx_lines c \<noteq> [] \<and> parts (last (ctx_lines c)) = []
              \<and> R n (c\<lparr>ctx_lines := butlast (ctx_lines c)\<rparr>))
        \<and> (multi \<longrightarrow> (F n c \<longrightarrow> R n c)
              \<and> (F n c \<longrightarrow> F (Suc n) (with_indent (ctx_indent c + 1) c))
              \<and> (F (Suc n) c \<longrightarrow> F n (with_indent (ctx_indent c - 1) c))))"

text \<open>\<open>with_fragment R n\<close>: \<open>R n\<close> holds and the current line has a fragment.\<close>

definition with_fragment ::
  "(nat \<Rightarrow> EmitterVisitorContext \<Rightarrow> bool) \<Rightarrow> nat \<Rightarrow> EmitterVisitorContext \<Rightarrow> bool" where
  "with_fragment R n c = (R n c \<and> parts (last (ctx_lines c)) \<noteq> [])"

text \<open>\<open>any_error\<close> holds of every error: a postcondition that leaves the errors open.\<close>

definition any_error :: "error \<Rightarrow> bool" where
  "any_error e = True"

subsection \<open>Rendering on the current line\<close>







subsection \<open>Indents that are not negative\<close>

text \<open>
  \<open>indents_nonneg\<close>: the indent counter and the recorded indent of every line are not
  negative. \<open>nonneg_at n\<close> and \<open>nonneg_new_line_at n\<close> add to it that the context
  is \<open>ready\<close>, or at a \<open>fresh_line\<close>, at the indent counter \<open>n\<close>;
  \<open>wf_at k n\<close> and \<open>wf_new_line_at k n\<close> do the same for \<open>lines_wf\<close> and the
  indent counter \<open>k + n\<close>.
\<close>

definition indents_nonneg :: "EmitterVisitorContext \<Rightarrow> bool" where
  "indents_nonneg ctx =
     (0 \<le> ctx_indent ctx \<and> (\<forall>l \<in> set (ctx_lines ctx). 0 \<le> indent l))"



definition wf_at :: "int \<Rightarrow> nat \<Rightarrow> EmitterVisitorContext \<Rightarrow> bool" where
  "wf_at k n c = (ready (k + int n) c \<and> lines_wf c)"

definition wf_new_line_at :: "int \<Rightarrow> nat \<Rightarrow> EmitterVisitorContext \<Rightarrow> bool" where
  "wf_new_line_at k n c = (fresh_line (k + int n) c \<and> lines_wf c)"

section \<open>The text of a literal\<close>

lemma Number_toString_examples:
  "Number_toString (SafeInteger False 9007199254740991) = ''9007199254740991''
   \<and> Number_toString (SafeInteger True 42) = ''-42''
   \<and> Number_toString (SafeInteger True 0) = ''0''
   \<and> template_of_literal (LitNumber (OtherNumber ''1e+21'')) = ''1e+21''
   \<and> template_of_literal (LitNumber (Infinity True)) = ''-Infinity''
   \<and> template_of_literal LitUndefined = ''undefined''"
  by simp

section \<open>Escaping of names and string literals\<close>




section \<open>The source map\<close>

text \<open>
  The three loops of \<^verbatim>\<open>toSourceMapGenerator\<close> issue, for a line with as many
  parts as spans, the calls of the entries of \<open>line_entries\<close>.
\<close>

lemma absorb_entries:
  "length ss = length ps \<Longrightarrow>
   \<exists>c' ss' ps'. absorb s c ss ps = Inr (c', ss', ps') \<and> length ss' = length ps'
     \<and> (ss' = [] \<or> (\<exists>t. hd ss' = Some t \<and> t \<noteq> s))
     \<and> entries_after (Some s) c ss ps = entries_after (Some s) c' ss' ps'"
proof (induction ss arbitrary: c ps)
  case Nil
  then show ?case by simp
next
  case (Cons x ss)
  then obtain p ps0 where ps: "ps = p # ps0" and len: "length ss = length ps0"
    by (cases ps) auto
  show ?case
  proof (cases "x = Some s \<or> x = None")
    case True
    from Cons.IH [OF len, of "c + int (length p)"] True ps show ?thesis
      by auto
  next
    case False
    then obtain t where "x = Some t" "t \<noteq> s" by (cases x) auto
    with ps len show ?thesis by simp
  qed
qed

lemma segments_entries:
  "length ss = length ps \<Longrightarrow> (ss = [] \<or> (\<exists>t. hd ss = Some t \<and> prev \<noteq> Some t)) \<Longrightarrow>
   segments store c ss ps = Inr (concat (map (entry_calls store) (entries_after prev c ss ps)))"
proof (induction "length ss" arbitrary: ss ps c prev rule: less_induct)
  case less
  show ?case
  proof (cases ss)
    case Nil
    then show ?thesis by simp
  next
    case (Cons x ss0)
    with less.prems obtain t where x: "x = Some t" and pt: "prev \<noteq> Some t" by auto
    from Cons less.prems obtain p ps0 where ps: "ps = p # ps0" and len: "length ss0 = length ps0"
      by (cases ps) auto
    from absorb_entries [OF len, of t "c + int (length p)"]
    obtain c' ss' ps' where ab: "absorb t (c + int (length p)) ss0 ps0 = Inr (c', ss', ps')"
      and len': "length ss' = length ps'"
      and hd': "ss' = [] \<or> (\<exists>u. hd ss' = Some u \<and> u \<noteq> t)"
      and ent: "entries_after (Some t) (c + int (length p)) ss0 ps0 = entries_after (Some t) c' ss' ps'"
      by blast
    have "length ss' < length ss"
      using absorb_length [OF ab] Cons by simp
    moreover have "ss' = [] \<or> (\<exists>u. hd ss' = Some u \<and> Some t \<noteq> Some u)"
      using hd' by auto
    ultimately have "segments store c' ss' ps'
        = Inr (concat (map (entry_calls store) (entries_after (Some t) c' ss' ps')))"
      using less.hyps len' by blast
    with ab ent pt show ?thesis
      by (simp add: Cons x ps entry_calls_def Let_def)
  qed
qed

lemma skip_leading_entries:
  "length ss = length ps \<Longrightarrow>
   \<exists>c' ss' ps'. skip_leading c ss ps = Inr (c', ss', ps') \<and> length ss' = length ps'
     \<and> (ss' = [] \<or> (\<exists>t. hd ss' = Some t))
     \<and> entries_after None c ss ps = entries_after None c' ss' ps'"
proof (induction ss arbitrary: c ps)
  case Nil
  then show ?case by simp
next
  case (Cons x ss)
  then obtain p ps0 where ps: "ps = p # ps0" and len: "length ss = length ps0"
    by (cases ps) auto
  show ?case
  proof (cases x)
    case None
    with Cons.IH [OF len, of "c + int (length p)"] ps show ?thesis by auto
  next
    case (Some t)
    with ps len show ?thesis by simp
  qed
qed

lemma line_calls_entries:
  assumes "length (parts l) = length (srcSpans l)"
  shows "line_calls store l = Inr (AddLine # concat (map (entry_calls store) (line_entries l)))"
proof -
  let ?c = "indent l * int (length INDENT_WITH)"
  from skip_leading_entries [of "srcSpans l" "parts l" ?c] assms
  obtain c' ss' ps' where sk: "skip_leading ?c (srcSpans l) (parts l) = Inr (c', ss', ps')"
    and len: "length ss' = length ps'" and hd: "ss' = [] \<or> (\<exists>t. hd ss' = Some t)"
    and ent: "entries_after None ?c (srcSpans l) (parts l) = entries_after None c' ss' ps'"
    by auto
  have "segments store c' ss' ps' = Inr (concat (map (entry_calls store) (entries_after None c' ss' ps')))"
    using segments_entries [OF len, of None store c'] hd by auto
  with sk ent show ?thesis
    by (simp add: line_calls_def line_entries_def)
qed

lemma forEach_line_entries:
  assumes "\<forall>l \<in> set ls. length (parts l) = length (srcSpans l)"
  shows "forEach_line store ls
     = Inr (concat (map (\<lambda>l. AddLine # concat (map (entry_calls store) (line_entries l))) ls))"
  using assms by (induction ls) (simp_all add: line_calls_entries)

lemma remdups_adj_head: "remdups_adj (x # xs) = x # tl (remdups_adj (x # xs))"
  by (cases xs) auto

lemma entries_after_spans:
  "length ss = length ps \<Longrightarrow>
   map snd (entries_after prev c ss ps)
     = (case prev of None \<Rightarrow> remdups_adj (spans_of ss)
        | Some x \<Rightarrow> tl (remdups_adj (x # spans_of ss)))"
proof (induction ss arbitrary: prev c ps)
  case Nil
  then show ?case by (simp split: option.splits)
next
  case (Cons x ss)
  then obtain p ps0 where ps: "ps = p # ps0" and len: "length ss = length ps0"
    by (cases ps) auto
  show ?case
  proof (cases x)
    case None
    with Cons.IH [OF len] ps show ?thesis by (simp split: option.splits)
  next
    case (Some s)
    have ih: "map snd (entries_after (Some s) (c + int (length p)) ss ps0)
        = tl (remdups_adj (s # spans_of ss))"
      using Cons.IH [OF len, of "Some s"] by simp
    show ?thesis
    proof (cases prev)
      case None
      with Some ps ih show ?thesis
        using remdups_adj_head [of s "spans_of ss"] by simp
    next
      case (Some y)
      with \<open>x = Some s\<close> ps ih show ?thesis
        using remdups_adj_head [of s "spans_of ss"] by auto
    qed
  qed
qed

lemma entries_after_ge:
  "e \<in> set (entries_after prev c ss ps) \<Longrightarrow> c \<le> fst e"
proof (induction prev c ss ps rule: entries_after.induct)
  case (1 prev c ss p ps)
  then show ?case by force
next
  case (2 prev c s ss p ps)
  then show ?case by (force split: if_splits)
qed simp_all

lemma entries_after_sorted:
  "\<forall>p \<in> set ps. p \<noteq> [] \<Longrightarrow> sorted_wrt (<) (map fst (entries_after prev c ss ps))"
proof (induction prev c ss ps rule: entries_after.induct)
  case (1 prev c ss p ps)
  then show ?case by simp
next
  case (2 prev c s ss p ps)
  have "c < fst e" if "e \<in> set (entries_after (Some s) (c + int (length p)) ss ps)" for e
    using entries_after_ge [OF that] 2(2) by (cases p) auto
  with 2 show ?case by (auto simp: sorted_wrt_append)
qed simp_all

lemma preceding_span_Suc:
  "preceding_span prev (x # ss) (Suc i) = preceding_span (if x = None then prev else x) ss i"
  by (auto simp: preceding_span_def split: list.splits)

lemma starts_entry_Suc:
  "starts_entry prev (x # ss) (Suc i) = starts_entry (if x = None then prev else x) ss i"
  by (simp add: starts_entry_def preceding_span_Suc)

lemma starts_entry_0:
  "starts_entry prev (x # ss) 0 = (x \<noteq> None \<and> prev \<noteq> x)"
  by (simp add: starts_entry_def preceding_span_def)

lemma upt_0_Suc: "[0..<Suc n] = 0 # map Suc [0..<n]"
  by (simp add: upt_conv_Cons map_Suc_upt del: upt_Suc)

lemma entries_after_index:
  "length ss = length ps \<Longrightarrow>
   entries_after prev c ss ps
     = map (\<lambda>i. (c + sum_list (map (\<lambda>p. int (length p)) (take i ps)), the (ss ! i)))
         (filter (starts_entry prev ss) [0..<length ss])"
proof (induction ss arbitrary: prev c ps)
  case Nil
  then show ?case by simp
next
  case (Cons x ss)
  then obtain p ps0 where ps: "ps = p # ps0" and len: "length ss = length ps0"
    by (cases ps) auto
  have shift: "map (\<lambda>i. (c + sum_list (map (\<lambda>p. int (length p)) (take i (p # ps0))), the ((x # ss) ! i)))
         (filter (starts_entry prev (x # ss)) (map Suc [0..<length ss]))
      = map (\<lambda>i. (c + int (length p) + sum_list (map (\<lambda>p. int (length p)) (take i ps0)), the (ss ! i)))
         (filter (starts_entry (if x = None then prev else x) ss) [0..<length ss])"
    by (simp add: filter_map comp_def starts_entry_Suc add.assoc)
  show ?case
  proof (cases x)
    case None
    then show ?thesis
      using Cons.IH [OF len, of prev "c + int (length p)"] shift
      by (simp add: ps upt_0_Suc starts_entry_0 del: upt_Suc)
  next
    case (Some s)
    then show ?thesis
      using Cons.IH [OF len, of "Some s" "c + int (length p)"] shift
      by (auto simp add: ps upt_0_Suc starts_entry_0 simp del: upt_Suc)
  qed
qed

lemma mapped_positions_append:
  "mapped_positions (xs @ ys) = mapped_positions xs @ mapped_positions ys"
  by (induction xs rule: mapped_positions.induct) simp_all

lemma mapped_positions_entries:
  "mapped_positions (concat (map (entry_calls store) es)) = map (source_position store) (map snd es)"
  by (induction es) (simp_all add: entry_calls_def source_position_def)

lemma mapped_positions_replicate: "mapped_positions (replicate n AddLine) = []"
  by (induction n) simp_all

lemma line_entries_spans:
  "length (parts l) = length (srcSpans l) \<Longrightarrow>
   map snd (line_entries l) = remdups_adj (spans_of (srcSpans l))"
  using entries_after_spans [of "srcSpans l" "parts l" None] by (simp add: line_entries_def)

lemma mapped_positions_lines:
  "\<forall>l \<in> set ls. length (parts l) = length (srcSpans l) \<Longrightarrow>
   mapped_positions (concat (map (\<lambda>l. AddLine # concat (map (entry_calls store) (line_entries l))) ls))
     = concat (map (\<lambda>l. map (source_position store) (remdups_adj (spans_of (srcSpans l)))) ls)"
  by (induction ls) (simp_all add: mapped_positions_append mapped_positions_entries line_entries_spans)

lemma filter_mapping_entries:
  "filter is_AddMapping (concat (map (entry_calls store) es))
     = map (\<lambda>e. case source_position store (snd e) of (u, sl, sc) \<Rightarrow> AddMapping (fst e) u sl sc) es"
  by (induction es) (simp_all add: entry_calls_def source_position_def)

lemma line_entries_index:
  "length (parts l) = length (srcSpans l) \<Longrightarrow>
   line_entries l
     = map (\<lambda>i. (fragment_column l i, the (srcSpans l ! i)))
         (filter (starts_entry None (srcSpans l)) [0..<length (srcSpans l)])"
  using entries_after_index [of "srcSpans l" "parts l" None "indent l * int (length INDENT_WITH)"]
  by (simp add: line_entries_def fragment_column_def)

text \<open>
  Claim C1. For every finalized line with as many parts as spans, the mapping entries
  of the line are, in order, one for each maximal run of fragments that share the same
  span object, where the fragments without span are passed over: the source positions
  of the entries are those of the spans of the fragments with a span, with adjacent
  repetitions of the same span removed (\<open>remdups_adj\<close>). Two adjacent fragments with
  the same span therefore give one entry. The entries of the whole map are the entries
  of the lines one after the other, so a run never continues on the next line; and a line
  whose fragments all lack a span has no fragment with a span and gives no entry.
\<close>

theorem span_runs_one_mapping_each:
  assumes "\<forall>l \<in> set (sourceLines ctx). length (parts l) = length (srcSpans l)"
  shows "\<exists>g. toSourceMapGenerator store ctx file0 startsAtLine = Inr g
     \<and> mapped_positions (calls g)
       = concat (map (\<lambda>l. map (source_position store) (remdups_adj (spans_of (srcSpans l))))
           (sourceLines ctx))
     \<and> (\<forall>l \<in> set (sourceLines ctx). \<exists>cs. line_calls store l = Inr cs
          \<and> length (mapped_positions cs) = length (remdups_adj (spans_of (srcSpans l))))"
proof -
  have each: "\<exists>cs. line_calls store l = Inr cs
      \<and> length (mapped_positions cs) = length (remdups_adj (spans_of (srcSpans l)))"
    if "l \<in> set (sourceLines ctx)" for l
  proof -
    from that assms have len: "length (parts l) = length (srcSpans l)" by blast
    have "length (mapped_positions (AddLine # concat (map (entry_calls store) (line_entries l))))
        = length (map snd (line_entries l))"
      by (simp add: mapped_positions_entries)
    then show ?thesis
      using line_calls_entries [OF len, of store] line_entries_spans [OF len] by simp
  qed
  show ?thesis
    using forEach_line_entries [OF assms, of store] mapped_positions_lines [OF assms, of store] each
    by (simp add: toSourceMapGenerator_def mapped_positions_append mapped_positions_replicate)
qed

theorem span_runs_one_mapping_each_witness:
  "\<exists>g. toSourceMapGenerator example_store
          \<lparr>ctx_exportedVars = [], ctx_indent = 0, ctx_lines = example_lines\<rparr> None 0 = Inr g
     \<and> mapped_positions (calls g) = [(''a.ts'', 0, 1), (''a.ts'', 0, 1), (''a.ts'', 0, 2)]"
  using span_runs_one_mapping_each
    [of "\<lparr>ctx_exportedVars = [], ctx_indent = 0, ctx_lines = example_lines\<rparr>" example_store None 0]
  by (simp add: sourceLines_def example_lines_def source_position_def example_store_def; blast)

text \<open>
  Claim C2, as stated, fails: \<^verbatim>\<open>addSource\<close> is not called once for each
  distinct original file. On a line with two fragments whose spans are two objects of
  the same file, the encoder receives \<^verbatim>\<open>addSource\<close> twice for the one file.
\<close>

theorem addSource_once_per_file_counterexample:
  "\<exists>g. toSourceMapGenerator example_store
          \<lparr>ctx_exportedVars = [], ctx_indent = 0,
             ctx_lines = [\<lparr>parts = [''d'', ''e''], srcSpans = [Some 1, Some 2], indent = 0\<rparr>]\<rparr>
          None 0 = Inr g
     \<and> calls g = [AddLine, AddSource ''a.ts'' ''ab'', AddMapping 0 ''a.ts'' 0 1,
                  AddSource ''a.ts'' ''ab'', AddMapping 1 ''a.ts'' 0 2]
     \<and> length (filter is_AddSource (calls g)) = 2
     \<and> card (loc_file ` start ` example_store ` {1, 2}) = 1"
  by (simp add: toSourceMapGenerator_def sourceLines_def line_calls_def INDENT_WITH_def
      example_store_def Let_def)

text \<open>
  Claim C2, amended. For a context whose finalized lines have as many parts as spans and
  no empty part, the calls are: \<^verbatim>\<open>addLine\<close> once for each of the
  \<^verbatim>\<open>startsAtLine\<close> lines before the text, then for each finalized line in
  order \<^verbatim>\<open>addLine\<close> once (also for a line without entries) followed, for each
  merged run of the line in order, by \<^verbatim>\<open>addSource\<close> and then
  \<^verbatim>\<open>addMapping\<close>; the columns of the entries of a line increase strictly. So
  \<^verbatim>\<open>addSource\<close> is called once for each merged run, not once for each file.
\<close>

theorem encoder_call_sequence:
  assumes "\<forall>l \<in> set (sourceLines ctx).
             length (parts l) = length (srcSpans l) \<and> (\<forall>p \<in> set (parts l). p \<noteq> [])"
  shows "\<exists>g. toSourceMapGenerator store ctx file0 startsAtLine = Inr g
     \<and> calls g = replicate (nat startsAtLine) AddLine
         @ concat (map (\<lambda>l. AddLine # concat (map (entry_calls store) (line_entries l)))
             (sourceLines ctx))
     \<and> (\<forall>l \<in> set (sourceLines ctx). sorted_wrt (<) (map fst (line_entries l)))
     \<and> length (filter (\<lambda>c. c = AddLine) (calls g)) = nat startsAtLine + length (sourceLines ctx)"
proof -
  from assms have len: "\<forall>l \<in> set (sourceLines ctx). length (parts l) = length (srcSpans l)"
    by blast
  have sorted: "sorted_wrt (<) (map fst (line_entries l))" if "l \<in> set (sourceLines ctx)" for l
    using that assms
      entries_after_sorted [of "parts l" None "indent l * int (length INDENT_WITH)" "srcSpans l"]
    by (simp add: line_entries_def)
  have count: "length (filter (\<lambda>c. c = AddLine)
      (concat (map (\<lambda>l. AddLine # concat (map (entry_calls store) (line_entries l))) ls)))
      = length ls" for ls
  proof (induction ls)
    case Nil
    then show ?case by simp
  next
    case (Cons l ls)
    have "filter (\<lambda>c. c = AddLine) (concat (map (entry_calls store) es)) = []" for es
      by (induction es) (simp_all add: entry_calls_def)
    with Cons show ?case by simp
  qed
  show ?thesis
    using forEach_line_entries [OF len, of store] sorted count
    by (simp add: toSourceMapGenerator_def)
qed

theorem encoder_call_sequence_witness:
  "\<exists>g. toSourceMapGenerator example_store
          \<lparr>ctx_exportedVars = [], ctx_indent = 0, ctx_lines = example_lines\<rparr> None 1 = Inr g
     \<and> calls g = [AddLine,
          AddLine, AddSource ''a.ts'' ''ab'', AddMapping 0 ''a.ts'' 0 1,
          AddLine,
          AddLine, AddSource ''a.ts'' ''ab'', AddMapping 0 ''a.ts'' 0 1,
                   AddSource ''a.ts'' ''ab'', AddMapping 1 ''a.ts'' 0 2]"
  using encoder_call_sequence
    [of "\<lparr>ctx_exportedVars = [], ctx_indent = 0, ctx_lines = example_lines\<rparr>" example_store None 1]
  by (simp add: sourceLines_def example_lines_def line_entries_def entry_calls_def
      example_store_def INDENT_WITH_def; blast)

text \<open>
  Claim C10. For a line with as many parts as spans, the \<^verbatim>\<open>addMapping\<close>
  calls of the line are, in order, those of the fragments that start an entry: the
  fragments that have a span which is not the span of the nearest fragment with a span
  before them on the line. So a fragment without span never starts an entry and never
  ends a run (after span S and a fragment without span, a fragment with span S starts
  no entry), and the fragments without span before the first fragment with a span only
  move the column. The column of an entry is \<open>fragment_column\<close>: the indent of the line
  times the width of the indent unit, which is 2, plus the widths of the fragments
  before it.
\<close>

theorem spanless_fragments_absorbed:
  assumes "length (parts l) = length (srcSpans l)"
  shows "\<exists>cs. line_calls store l = Inr (AddLine # cs)
     \<and> filter is_AddMapping cs
       = map (mapping_at store l)
           (filter (starts_entry None (srcSpans l)) [0..<length (srcSpans l)])"
proof -
  have "filter is_AddMapping (concat (map (entry_calls store) (line_entries l)))
      = map (\<lambda>e. case source_position store (snd e) of (u, sl, sc) \<Rightarrow> AddMapping (fst e) u sl sc)
          (line_entries l)"
    by (rule filter_mapping_entries)
  also have "\<dots> = map (mapping_at store l)
      (filter (starts_entry None (srcSpans l)) [0..<length (srcSpans l)])"
    unfolding line_entries_index [OF assms] by (simp add: mapping_at_def comp_def)
  finally show ?thesis
    using line_calls_entries [OF assms, of store] by simp
qed

theorem spanless_fragments_absorbed_witness:
  "\<exists>cs. line_calls example_store
           \<lparr>parts = [''ab'', ''c'', ''de'', ''f'', ''g''],
              srcSpans = [None, Some 1, None, Some 1, Some 2], indent = 1\<rparr> = Inr (AddLine # cs)
     \<and> filter is_AddMapping cs = [AddMapping 4 ''a.ts'' 0 1, AddMapping 8 ''a.ts'' 0 2]"
  using spanless_fragments_absorbed
    [of "\<lparr>parts = [''ab'', ''c'', ''de'', ''f'', ''g''],
          srcSpans = [None, Some 1, None, Some 1, Some 2], indent = 1\<rparr>" example_store]
  by (simp add: line_calls_def INDENT_WITH_def example_store_def Let_def)

section \<open>The visitor keeps a current line and the indent counter\<close>

lemma hoareI: "(\<And>ctx. P ctx \<Longrightarrow> (case f ctx of Inl e \<Rightarrow> E e | Inr c \<Rightarrow> Q c)) \<Longrightarrow> hoare P f Q E"
  by (simp add: hoare_def)

lemma hoare_Inr_D: "hoare P f Q E \<Longrightarrow> P ctx \<Longrightarrow> f ctx = Inr c \<Longrightarrow> Q c"
  by (auto simp: hoare_def split: sum.splits)

lemma hoare_Inl_D: "hoare P f Q E \<Longrightarrow> P ctx \<Longrightarrow> f ctx = Inl e \<Longrightarrow> E e"
  by (auto simp: hoare_def split: sum.splits)

lemma hoare_bind:
  "hoare P f R E \<Longrightarrow> hoare R g Q E \<Longrightarrow> hoare P (\<lambda>c. andThen (f c) g) Q E"
  by (auto simp: hoare_def andThen_def split: sum.splits)

lemma hoare_Inr: "hoare P Inr P E"
  by (simp add: hoare_def)

lemma hoare_pre: "hoare P' f Q E \<Longrightarrow> (\<And>c. P c \<Longrightarrow> P' c) \<Longrightarrow> hoare P f Q E"
  by (auto simp: hoare_def)

lemma hoare_post: "hoare P f Q' E \<Longrightarrow> (\<And>c. Q' c \<Longrightarrow> Q c) \<Longrightarrow> hoare P f Q E"
  by (fastforce simp: hoare_def split: sum.splits)

lemma hoare_if:
  "(b \<Longrightarrow> hoare P f Q E) \<Longrightarrow> (\<not> b \<Longrightarrow> hoare P g Q E) \<Longrightarrow> hoare P (\<lambda>c. if b then f c else g c) Q E"
  by (simp add: hoare_def)

lemma print_eq:
  "ctx_lines ctx \<noteq> [] \<Longrightarrow>
   print ctx sp p nl =
     Inr (ctx\<lparr>ctx_lines :=
            (if p \<noteq> [] then
               butlast (ctx_lines ctx)
               @ [(last (ctx_lines ctx))\<lparr>parts := parts (last (ctx_lines ctx)) @ [p],
                                          srcSpans := srcSpans (last (ctx_lines ctx)) @ [sp]\<rparr>]
             else ctx_lines ctx)
            @ (if nl then [new_EmittedLine (ctx_indent ctx)] else [])\<rparr>)"
  by (simp add: print_def andThen_def currentLine_def set_currentLine_def)

lemma set_indent_eq:
  "ctx_lines ctx \<noteq> [] \<Longrightarrow>
   set_indent i ctx =
     Inr (ctx\<lparr>ctx_indent := i,
              ctx_lines := butlast (ctx_lines ctx) @ [(last (ctx_lines ctx))\<lparr>indent := i\<rparr>]\<rparr>)"
  by (simp add: set_indent_def currentLine_def set_currentLine_def Let_def)

lemma lineIsEmpty_eq:
  "ctx_lines ctx \<noteq> [] \<Longrightarrow> lineIsEmpty ctx = Inr (parts (last (ctx_lines ctx)) = [])"
  by (simp add: lineIsEmpty_def currentLine_def)

lemma hoare_print: "hoare (ready k) (\<lambda>c. print c sp p nl) (ready k) E"
  by (rule hoareI) (simp add: ready_def print_eq)

lemma hoare_println: "hoare (ready k) (\<lambda>c. println c sp p) (fresh_line k) E"
  by (rule hoareI) (auto simp add: ready_def fresh_line_def println_def print_eq Suc_le_eq)

lemma hoare_incIndent: "hoare (ready k) incIndent (ready (k + 1)) E"
  by (rule hoareI) (simp add: ready_def incIndent_def set_indent_eq)

lemma hoare_decIndent: "hoare (ready (k + 1)) decIndent (ready k) E"
  by (rule hoareI) (simp add: ready_def decIndent_def set_indent_eq)

lemma hoare_lineIsEmpty:
  "hoare (ready k) (g True) Q E \<Longrightarrow> hoare (ready k) (g False) Q E
     \<Longrightarrow> hoare (ready k) (\<lambda>c. andThen (lineIsEmpty c) (\<lambda>b. g b c)) Q E"
proof (rule hoareI)
  fix ctx
  assume h: "hoare (ready k) (g True) Q E" "hoare (ready k) (g False) Q E" and r: "ready k ctx"
  show "case andThen (lineIsEmpty ctx) (\<lambda>b. g b ctx) of Inl e \<Rightarrow> E e | Inr c \<Rightarrow> Q c"
  proof (cases "parts (last (ctx_lines ctx)) = []")
    case True
    with h(1) r show ?thesis
      by (simp add: ready_def lineIsEmpty_eq andThen_def hoare_def)
  next
    case False
    with h(2) r show ?thesis
      by (simp add: ready_def lineIsEmpty_eq andThen_def hoare_def)
  qed
qed

lemma fresh_line_ready: "fresh_line k c \<Longrightarrow> ready k c"
  by (auto simp: fresh_line_def ready_def)

lemma hoare_loop:
  assumes "\<And>x. x \<in> set xs \<Longrightarrow> hoare (ready k) (h x) (ready k) E"
  shows "hoare (ready k) (\<lambda>c. visitAllObjects_loop h xs i c sep nl) (ready k) E"
  using assms
proof (induction xs arbitrary: i)
  case Nil
  show ?case by (rule hoareI) simp
next
  case (Cons x xs)
  have hd: "hoare (ready k) (h x) (ready k) E" using Cons.prems by simp
  have tl: "hoare (ready k) (\<lambda>c. visitAllObjects_loop h xs (i + 1) c sep nl) (ready k) E"
    using Cons.IH Cons.prems by simp
  have sepr: "hoare (ready k) (\<lambda>c. if 0 < i then print c None sep nl else Inr c) (ready k) E"
    by (rule hoare_if) (rule hoare_print, rule hoare_Inr)
  show ?case
    unfolding visitAllObjects_loop.simps
    by (rule hoare_bind [OF sepr]) (rule hoare_bind [OF hd tl])
qed

lemma hoare_visitAllObjects:
  assumes "\<And>x. x \<in> set xs \<Longrightarrow> hoare (ready k) (h x) (ready k) E"
  shows "hoare (ready k) (\<lambda>c. visitAllObjects h xs c sep nl) (ready k) E"
  unfolding visitAllObjects_def
  apply (rule hoare_bind [OF hoare_loop [OF assms]], assumption)
  apply (rule hoare_if)
   apply (rule hoare_post [OF hoare_println], erule fresh_line_ready)
  apply (rule hoare_Inr)
  done

lemmas hoare_steps = hoare_bind hoare_print hoare_incIndent hoare_decIndent hoare_Inr
  hoare_visitAllObjects

lemma builtinVarName_cases:
  "(b \<in> set recognized_builtins \<and> (\<exists>n. builtinVarName b = Inr n))
   \<or> (b \<notin> set recognized_builtins \<and> builtinVarName b = Inl (Unknown_builtin_variable b))"
  by (cases b) (simp_all add: recognized_builtins_def)

lemma opStr_cases:
  "(op \<in> set operator_table \<and> (\<exists>n. opStr op = Inr n))
   \<or> (op \<notin> set operator_table \<and> opStr op = Inl (Unknown_operator op))"
  by (cases op) (simp_all add: operator_table_def)

lemma hoare_const_bind:
  "(\<And>x. m = Inr x \<Longrightarrow> hoare P (g x) Q E) \<Longrightarrow> (\<And>e. m = Inl e \<Longrightarrow> E e)
     \<Longrightarrow> hoare P (\<lambda>c. andThen m (\<lambda>x. g x c)) Q E"
  by (cases m) (auto simp: hoare_def andThen_def)

lemma expr_hoare:
  "(strict \<longrightarrow> known_tags e) \<Longrightarrow>
     hoare (ready k) (visitExpression em e) (ready k) (tag_errors strict)"
  and entry_hoare:
  "(strict \<longrightarrow> known_tags_entry en) \<Longrightarrow>
     hoare (ready k) (visitMapEntry em sp0 en) (ready k) (tag_errors strict)"
proof (induction e and en arbitrary: k and k sp0)
  case (ReadVarExpr v sp)
  have eq: "visitExpression em (ReadVarExpr v sp)
      = (\<lambda>c. andThen (case v of VarName n \<Rightarrow> Inr n | VarBuiltin b \<Rightarrow> builtinVarName b)
                (\<lambda>n. print c sp n False))"
    by (rule ext) simp
  show ?case
    unfolding eq
  proof (rule hoare_const_bind)
    fix x show "hoare (ready k) (\<lambda>c. print c sp x False) (ready k) (tag_errors strict)"
      by (rule hoare_print)
  next
    fix e assume "(case v of VarName n \<Rightarrow> Inr n | VarBuiltin b \<Rightarrow> builtinVarName b) = Inl e"
    then obtain b where "v = VarBuiltin b" "builtinVarName b = Inl e"
      by (cases v) auto
    then show "tag_errors strict e"
      using ReadVarExpr builtinVarName_cases [of b]
      by (auto simp: tag_errors_def fatal_tag_def)
  qed
next
  case (WriteVarExpr n v sp)
  have eq: "visitExpression em (WriteVarExpr n v sp)
      = (\<lambda>c. andThen (lineIsEmpty c) (\<lambda>b.
           (\<lambda>c. andThen (if \<not> b then print c sp ''('' False else Inr c) (\<lambda>c.
                 andThen (print c sp (n @ '' = '') False) (\<lambda>c.
                 andThen (visitExpression em v c) (\<lambda>c.
                 if \<not> b then print c sp '')'' False else Inr c)))) c))"
    by (rule ext) simp
  from WriteVarExpr show ?case
    unfolding eq by - (rule hoare_lineIsEmpty; simp; (rule hoare_steps | assumption)+)
next
  case (WriteKeyExpr r i v sp)
  have eq: "visitExpression em (WriteKeyExpr r i v sp)
      = (\<lambda>c. andThen (lineIsEmpty c) (\<lambda>b.
           (\<lambda>c. andThen (if \<not> b then print c sp ''('' False else Inr c) (\<lambda>c.
                 andThen (visitExpression em r c) (\<lambda>c.
                 andThen (print c sp ''['' False) (\<lambda>c.
                 andThen (visitExpression em i c) (\<lambda>c.
                 andThen (print c sp ''] = '' False) (\<lambda>c.
                 andThen (visitExpression em v c) (\<lambda>c.
                 if \<not> b then print c sp '')'' False else Inr c))))))) c))"
    by (rule ext) simp
  from WriteKeyExpr show ?case
    unfolding eq by - (rule hoare_lineIsEmpty; simp; (rule hoare_steps | assumption)+)
next
  case (WritePropExpr r n v sp)
  have eq: "visitExpression em (WritePropExpr r n v sp)
      = (\<lambda>c. andThen (lineIsEmpty c) (\<lambda>b.
           (\<lambda>c. andThen (if \<not> b then print c sp ''('' False else Inr c) (\<lambda>c.
                 andThen (visitExpression em r c) (\<lambda>c.
                 andThen (print c sp (''.'' @ n @ '' = '') False) (\<lambda>c.
                 andThen (visitExpression em v c) (\<lambda>c.
                 if \<not> b then print c sp '')'' False else Inr c))))) c))"
    by (rule ext) simp
  from WritePropExpr show ?case
    unfolding eq by - (rule hoare_lineIsEmpty; simp; (rule hoare_steps | assumption)+)
next
  case (InvokeMethodExpr r m args sp)
  show ?case
  proof (cases "case m of MethodName n \<Rightarrow> Some n | MethodBuiltin b \<Rightarrow> getBuiltinMethodName em b")
    case None
    then have eq: "visitExpression em (InvokeMethodExpr r m args sp)
        = (\<lambda>c. andThen (visitExpression em r c) Inr)"
      by (intro ext) simp
    from InvokeMethodExpr show ?thesis
      unfolding eq by simp ((rule hoare_steps | assumption)+)
  next
    case (Some n)
    then have eq: "visitExpression em (InvokeMethodExpr r m args sp)
        = (\<lambda>c. andThen (visitExpression em r c) (\<lambda>c.
             andThen (print c sp (''.'' @ n @ ''('') False) (\<lambda>c.
             andThen (visitAllObjects (visitExpression em) args c '','' False) (\<lambda>c.
             print c sp '')'' False))))"
      by (intro ext) simp
    from InvokeMethodExpr show ?thesis
      unfolding eq by simp ((rule hoare_steps | assumption)+)
  qed
next
  case (InvokeFunctionExpr f args sp)
  have eq: "visitExpression em (InvokeFunctionExpr f args sp)
      = (\<lambda>c. andThen (visitExpression em f c) (\<lambda>c.
           andThen (print c sp ''('' False) (\<lambda>c.
           andThen (visitAllObjects (visitExpression em) args c '','' False) (\<lambda>c.
           print c sp '')'' False))))"
    by (rule ext) simp
  from InvokeFunctionExpr show ?case
    unfolding eq by simp ((rule hoare_steps | assumption)+)
next
  case (InstantiateExpr cl args sp)
  have eq: "visitExpression em (InstantiateExpr cl args sp)
      = (\<lambda>c. andThen (print c sp ''new '' False) (\<lambda>c.
           andThen (visitExpression em cl c) (\<lambda>c.
           andThen (print c sp ''('' False) (\<lambda>c.
           andThen (visitAllObjects (visitExpression em) args c '','' False) (\<lambda>c.
           print c sp '')'' False)))))"
    by (rule ext) simp
  from InstantiateExpr show ?case
    unfolding eq by simp ((rule hoare_steps | assumption)+)
next
  case (LiteralExpr v sp)
  have "\<exists>t. \<forall>c. visitExpression em (LiteralExpr v sp) c = print c sp t False"
    by (cases v; simp add: escapeIdentifier_def Let_def; blast)
  then obtain t where t: "\<forall>c. visitExpression em (LiteralExpr v sp) c = print c sp t False"
    by blast
  have eq: "visitExpression em (LiteralExpr v sp) = (\<lambda>c. print c sp t False)"
    by (rule ext) (rule t [rule_format])
  show ?case
    unfolding eq by (rule hoare_print)
next
  case (ConditionalExpr c t f sp)
  have eq: "visitExpression em (ConditionalExpr c t f sp)
      = (\<lambda>ctx. andThen (print ctx sp ''('' False) (\<lambda>ctx.
           andThen (visitExpression em c ctx) (\<lambda>ctx.
           andThen (print ctx sp ''? '' False) (\<lambda>ctx.
           andThen (visitExpression em t ctx) (\<lambda>ctx.
           andThen (print ctx sp '': '' False) (\<lambda>ctx.
           andThen (visitExpression em f ctx) (\<lambda>ctx.
           print ctx sp '')'' False)))))))"
    by (rule ext) simp
  from ConditionalExpr show ?case
    unfolding eq by simp ((rule hoare_steps | assumption)+)
next
  case (NotExpr c sp)
  have eq: "visitExpression em (NotExpr c sp)
      = (\<lambda>ctx. andThen (print ctx sp ''!'' False) (visitExpression em c))"
    by (rule ext) simp
  from NotExpr show ?case
    unfolding eq by simp ((rule hoare_steps | assumption)+)
next
  case (BinaryOperatorExpr op l r sp)
  have eq: "visitExpression em (BinaryOperatorExpr op l r sp)
      = (\<lambda>ctx. andThen (opStr op) (\<lambda>s.
           (\<lambda>ctx. andThen (print ctx sp ''('' False) (\<lambda>ctx.
                   andThen (visitExpression em l ctx) (\<lambda>ctx.
                   andThen (print ctx sp ('' '' @ s @ '' '') False) (\<lambda>ctx.
                   andThen (visitExpression em r ctx) (\<lambda>ctx.
                   print ctx sp '')'' False))))) ctx))"
    by (rule ext) simp
  show ?case
    unfolding eq
  proof (rule hoare_const_bind)
    fix s assume "opStr op = Inr s"
    then have "op \<in> set operator_table" using opStr_cases [of op] by auto
    with BinaryOperatorExpr
    show "hoare (ready k) (\<lambda>ctx. andThen (print ctx sp ''('' False) (\<lambda>ctx.
                   andThen (visitExpression em l ctx) (\<lambda>ctx.
                   andThen (print ctx sp ('' '' @ s @ '' '') False) (\<lambda>ctx.
                   andThen (visitExpression em r ctx) (\<lambda>ctx.
                   print ctx sp '')'' False))))) (ready k) (tag_errors strict)"
      by simp ((rule hoare_steps | assumption)+)
  next
    fix e assume "opStr op = Inl e"
    then show "tag_errors strict e"
      using BinaryOperatorExpr.prems opStr_cases [of op]
      by (auto simp: tag_errors_def fatal_tag_def)
  qed
next
  case (ReadPropExpr r n sp)
  have eq: "visitExpression em (ReadPropExpr r n sp)
      = (\<lambda>ctx. andThen (visitExpression em r ctx) (\<lambda>ctx.
           andThen (print ctx sp ''.'' False) (\<lambda>ctx. print ctx sp n False)))"
    by (rule ext) simp
  from ReadPropExpr show ?case
    unfolding eq by simp ((rule hoare_steps | assumption)+)
next
  case (ReadKeyExpr r i sp)
  have eq: "visitExpression em (ReadKeyExpr r i sp)
      = (\<lambda>ctx. andThen (visitExpression em r ctx) (\<lambda>ctx.
           andThen (print ctx sp ''['' False) (\<lambda>ctx.
           andThen (visitExpression em i ctx) (\<lambda>ctx. print ctx sp '']'' False))))"
    by (rule ext) simp
  from ReadKeyExpr show ?case
    unfolding eq by simp ((rule hoare_steps | assumption)+)
next
  case (LiteralArrayExpr es sp)
  have eq: "visitExpression em (LiteralArrayExpr es sp)
      = (\<lambda>ctx. andThen (print ctx sp ''['' (length es > 1)) (\<lambda>ctx.
           andThen (incIndent ctx) (\<lambda>ctx.
           andThen (visitAllObjects (visitExpression em) es ctx '','' (length es > 1)) (\<lambda>ctx.
           andThen (decIndent ctx) (\<lambda>ctx. print ctx sp '']'' (length es > 1))))))"
    by (rule ext) (simp add: Let_def)
  from LiteralArrayExpr show ?case
    unfolding eq by simp ((rule hoare_steps | assumption)+)
next
  case (LiteralMapExpr es sp)
  have eq: "visitExpression em (LiteralMapExpr es sp)
      = (\<lambda>ctx. andThen (print ctx sp ''{'' (length es > 1)) (\<lambda>ctx.
           andThen (incIndent ctx) (\<lambda>ctx.
           andThen (visitAllObjects (visitMapEntry em sp) es ctx '','' (length es > 1)) (\<lambda>ctx.
           andThen (decIndent ctx) (\<lambda>ctx. print ctx sp ''}'' (length es > 1))))))"
    by (rule ext) (simp add: Let_def)
  from LiteralMapExpr show ?case
    unfolding eq by simp ((rule hoare_steps | assumption)+)
next
  case (LiteralMapEntry key v q)
  have "\<exists>t. visitMapEntry em sp0 (LiteralMapEntry key v q)
      = (\<lambda>ctx. andThen (print ctx sp0 t False) (visitExpression em v))"
    by (intro exI ext) simp
  then obtain t where eq: "visitMapEntry em sp0 (LiteralMapEntry key v q)
      = (\<lambda>ctx. andThen (print ctx sp0 t False) (visitExpression em v))" by blast
  from LiteralMapEntry show ?case
    unfolding eq by simp ((rule hoare_steps | assumption)+)
qed

lemma hoare_print_dirty: "p \<noteq> [] \<Longrightarrow> hoare (ready k) (\<lambda>c. print c sp p False) (dirty k) E"
  by (rule hoareI) (simp add: ready_def dirty_def print_eq)

lemma removeEmptyLastLine_eq:
  "ctx_lines ctx \<noteq> [] \<Longrightarrow>
   removeEmptyLastLine ctx =
     Inr (if parts (last (ctx_lines ctx)) = [] then ctx\<lparr>ctx_lines := butlast (ctx_lines ctx)\<rparr>
          else ctx)"
  by (simp add: removeEmptyLastLine_def lineIsEmpty_eq andThen_def)

lemma hoare_removeEmptyLastLine:
  "hoare (\<lambda>c. dirty k c \<or> fresh_line k c) removeEmptyLastLine (ready k) E"
proof (rule hoareI)
  fix ctx assume "dirty k ctx \<or> fresh_line k ctx"
  then show "case removeEmptyLastLine ctx of Inl e \<Rightarrow> E e | Inr c \<Rightarrow> ready k c"
  proof
    assume "dirty k ctx"
    then show ?thesis by (simp add: dirty_def ready_def removeEmptyLastLine_eq)
  next
    assume f: "fresh_line k ctx"
    then have "ctx_lines ctx \<noteq> []" "butlast (ctx_lines ctx) \<noteq> []"
      by (auto simp: fresh_line_def) (cases "ctx_lines ctx" rule: rev_cases, auto)
    with f show ?thesis
      by (simp add: fresh_line_def ready_def removeEmptyLastLine_eq new_EmittedLine_def)
  qed
qed

lemma hoare_incIndent_fresh: "hoare (fresh_line k) incIndent (fresh_line (k + 1)) E"
proof (rule hoareI)
  fix ctx assume f: "fresh_line k ctx"
  then have "ctx_lines ctx \<noteq> []" by (auto simp: fresh_line_def)
  with f show "case incIndent ctx of Inl e \<Rightarrow> E e | Inr c \<Rightarrow> fresh_line (k + 1) c"
    by (simp add: fresh_line_def incIndent_def set_indent_eq new_EmittedLine_def)
qed

lemma hoare_decIndent_fresh: "hoare (fresh_line (k + 1)) decIndent (fresh_line k) E"
proof (rule hoareI)
  fix ctx assume f: "fresh_line (k + 1) ctx"
  then have "ctx_lines ctx \<noteq> []" by (auto simp: fresh_line_def)
  with f show "case decIndent ctx of Inl e \<Rightarrow> E e | Inr c \<Rightarrow> fresh_line k c"
    by (simp add: fresh_line_def decIndent_def set_indent_eq new_EmittedLine_def)
qed

lemma hoare_println_fresh: "hoare (fresh_line k) (\<lambda>c. println c sp p) (fresh_line k) E"
  by (rule hoare_pre [OF hoare_println]) (rule fresh_line_ready)

lemma hoare_forEach_println:
  "ls \<noteq> [] \<Longrightarrow> hoare (ready k) (forEach_println sp ls) (fresh_line k) E"
proof (induction ls arbitrary: k)
  case Nil
  then show ?case by simp
next
  case (Cons l ls)
  show ?case
  proof (cases ls)
    case Nil
    have "forEach_println sp [l] = (\<lambda>c. andThen (println c sp (''// '' @ l)) Inr)"
      by (rule ext) (simp add: andThen_def split: sum.splits)
    then show ?thesis
      unfolding Nil by simp (rule hoare_bind [OF hoare_println hoare_Inr])
  next
    case (Cons a as)
    have eq: "forEach_println sp (l # ls)
        = (\<lambda>c. andThen (println c sp (''// '' @ l)) (forEach_println sp ls))"
      by (rule ext) simp
    have "ls \<noteq> []" using Cons by simp
    then have "hoare (ready k) (forEach_println sp ls) (fresh_line k) E"
      by (rule Cons.IH)
    then have "hoare (fresh_line k) (forEach_println sp ls) (fresh_line k) E"
      by (rule hoare_pre) (rule fresh_line_ready)
    then show ?thesis
      unfolding eq by (rule hoare_bind [OF hoare_println])
  qed
qed

lemma split_newline_nonempty: "split_newline s \<noteq> []"
  by (induction s) (auto split: list.splits)

lemma hoare_stmts_ready:
  assumes "\<And>s. s \<in> set ss \<Longrightarrow> hoare (ready k) (visitStatement em s) (fresh_line k) E"
  shows "hoare (ready k) (visitAllStatements em ss) (ready k) E"
  using assms
proof (induction ss)
  case Nil
  show ?case by (rule hoareI) simp
next
  case (Cons s ss)
  have eq: "visitAllStatements em (s # ss)
      = (\<lambda>c. andThen (visitStatement em s c) (visitAllStatements em ss))"
    by (rule ext) simp
  have "hoare (ready k) (visitStatement em s) (ready k) E"
    by (rule hoare_post [of _ _ "fresh_line k"]) (simp add: Cons.prems, rule fresh_line_ready)
  moreover have "hoare (ready k) (visitAllStatements em ss) (ready k) E"
    using Cons by simp
  ultimately show ?case
    unfolding eq by (rule hoare_bind)
qed

lemma hoare_stmts_fresh:
  assumes "\<And>s. s \<in> set ss \<Longrightarrow> hoare (ready k) (visitStatement em s) (fresh_line k) E"
  shows "hoare (fresh_line k) (visitAllStatements em ss) (fresh_line k) E"
  using assms
proof (induction ss)
  case Nil
  show ?case by (rule hoareI) simp
next
  case (Cons s ss)
  have eq: "visitAllStatements em (s # ss)
      = (\<lambda>c. andThen (visitStatement em s c) (visitAllStatements em ss))"
    by (rule ext) simp
  have "hoare (fresh_line k) (visitStatement em s) (fresh_line k) E"
    by (rule hoare_pre [of "ready k"]) (simp add: Cons.prems, rule fresh_line_ready)
  moreover have "hoare (fresh_line k) (visitAllStatements em ss) (fresh_line k) E"
    using Cons by simp
  ultimately show ?case
    unfolding eq by (rule hoare_bind)
qed

lemma hoare_stmts_inline:
  assumes "\<And>s. s \<in> set ss \<Longrightarrow> hoare (ready k) (visitStatement em s) (fresh_line k) E"
    and "length ss \<le> 1"
  shows "hoare (dirty k) (visitAllStatements em ss) (\<lambda>c. dirty k c \<or> fresh_line k c) E"
proof (cases ss)
  case Nil
  then show ?thesis by (simp add: hoare_def)
next
  case (Cons s ss')
  with assms(2) have ss: "ss = [s]" by simp
  have eq: "visitAllStatements em [s] = (\<lambda>c. andThen (visitStatement em s c) Inr)"
    by (rule ext) (simp add: andThen_def split: sum.splits)
  have "hoare (dirty k) (visitStatement em s) (fresh_line k) E"
    by (rule hoare_pre [of "ready k"]) (simp add: assms(1) ss, simp add: dirty_def)
  then have "hoare (dirty k) (visitAllStatements em [s]) (fresh_line k) E"
    unfolding eq by (rule hoare_bind) (rule hoare_Inr)
  then show ?thesis
    unfolding ss by (rule hoare_post) simp
qed

lemma stmt_hoare:
  "(strict \<longrightarrow> known_tags_stmt s) \<Longrightarrow>
     hoare (ready k) (visitStatement em s) (fresh_line k) (tag_errors strict)"
proof (induction s arbitrary: k)
  case (ExpressionStatement e sp)
  have eq: "visitStatement em (ExpressionStatement e sp)
      = (\<lambda>c. andThen (visitExpression em e c) (\<lambda>c. println c sp '';''))"
    by (rule ext) simp
  from ExpressionStatement have "hoare (ready k) (visitExpression em e) (ready k) (tag_errors strict)"
    by (simp add: expr_hoare)
  then show ?case
    unfolding eq by (rule hoare_bind) (rule hoare_println)
next
  case (ReturnStatement e sp)
  have eq: "visitStatement em (ReturnStatement e sp)
      = (\<lambda>c. andThen (print c sp ''return '' False) (\<lambda>c.
           andThen (visitExpression em e c) (\<lambda>c. println c sp '';'')))"
    by (rule ext) simp
  from ReturnStatement have "hoare (ready k) (visitExpression em e) (ready k) (tag_errors strict)"
    by (simp add: expr_hoare)
  then show ?case
    unfolding eq by - (rule hoare_bind, rule hoare_print, erule hoare_bind, rule hoare_println)
next
  case (IfStmt c ts fs sp)
  have cond: "hoare (ready k) (visitExpression em c) (ready k) (tag_errors strict)"
    using IfStmt.prems by (simp add: expr_hoare)
  have ts: "hoare (ready j) (visitStatement em s) (fresh_line j) (tag_errors strict)"
    if "s \<in> set ts" for s j
    using IfStmt.IH(1) [OF that] IfStmt.prems that by simp
  have fs: "hoare (ready j) (visitStatement em s) (fresh_line j) (tag_errors strict)"
    if "s \<in> set fs" for s j
    using IfStmt.IH(2) [OF that] IfStmt.prems that by simp
  have close: "hoare (ready k) (\<lambda>c. println c sp ''}'') (fresh_line k) (tag_errors strict)"
    by (rule hoare_println)
  show ?case
  proof (cases "length ts \<le> 1 \<and> \<not> fs \<noteq> []")
    case True
    have eq: "visitStatement em (IfStmt c ts fs sp)
        = (\<lambda>ctx. andThen (print ctx sp ''if ('' False) (\<lambda>ctx.
             andThen (visitExpression em c ctx) (\<lambda>ctx.
             andThen (print ctx sp '') {'' False) (\<lambda>ctx.
             andThen
               (andThen (print ctx sp '' '' False) (\<lambda>ctx.
                andThen (visitAllStatements em ts ctx) (\<lambda>ctx.
                andThen (removeEmptyLastLine ctx) (\<lambda>ctx.
                print ctx sp '' '' False))))
               (\<lambda>ctx. println ctx sp ''}'')))))"
      by (intro ext) (simp only: visitStatement.simps Let_def if_P [OF True])
    have inl: "hoare (dirty k) (visitAllStatements em ts) (\<lambda>c. dirty k c \<or> fresh_line k c)
        (tag_errors strict)"
      using True by (intro hoare_stmts_inline ts) simp_all
    have body: "hoare (ready k)
        (\<lambda>ctx. andThen (print ctx sp '' '' False) (\<lambda>ctx.
                andThen (visitAllStatements em ts ctx) (\<lambda>ctx.
                andThen (removeEmptyLastLine ctx) (\<lambda>ctx.
                print ctx sp '' '' False)))) (ready k) (tag_errors strict)"
      apply (rule hoare_bind [OF hoare_print_dirty], simp)
      apply (rule hoare_bind [OF inl])
      apply (rule hoare_bind [OF hoare_removeEmptyLastLine])
      apply (rule hoare_print)
      done
    show ?thesis
      unfolding eq
      apply (rule hoare_bind [OF hoare_print])
      apply (rule hoare_bind [OF cond])
      apply (rule hoare_bind [OF hoare_print])
      apply (rule hoare_bind [OF body close])
      done
  next
    case False
    have eq: "visitStatement em (IfStmt c ts fs sp)
        = (\<lambda>ctx. andThen (print ctx sp ''if ('' False) (\<lambda>ctx.
             andThen (visitExpression em c ctx) (\<lambda>ctx.
             andThen (print ctx sp '') {'' False) (\<lambda>ctx.
             andThen
               (andThen (println ctx None []) (\<lambda>ctx.
                andThen (incIndent ctx) (\<lambda>ctx.
                andThen (visitAllStatements em ts ctx) (\<lambda>ctx.
                andThen (decIndent ctx) (\<lambda>ctx.
                if fs \<noteq> [] then
                  andThen (println ctx sp ''} else {'') (\<lambda>ctx.
                  andThen (incIndent ctx) (\<lambda>ctx.
                  andThen (visitAllStatements em fs ctx) (\<lambda>ctx.
                  decIndent ctx)))
                else Inr ctx)))))
               (\<lambda>ctx. println ctx sp ''}'')))))"
      by (intro ext) (simp only: visitStatement.simps Let_def if_not_P [OF False])
    have els: "hoare (fresh_line k)
        (\<lambda>ctx. if fs \<noteq> [] then
                  andThen (println ctx sp ''} else {'') (\<lambda>ctx.
                  andThen (incIndent ctx) (\<lambda>ctx.
                  andThen (visitAllStatements em fs ctx) (\<lambda>ctx.
                  decIndent ctx)))
                else Inr ctx) (fresh_line k) (tag_errors strict)"
      apply (rule hoare_if)
       apply (rule hoare_bind [OF hoare_println_fresh])
       apply (rule hoare_bind [OF hoare_incIndent_fresh])
       apply (rule hoare_bind [OF hoare_stmts_fresh], erule fs)
       apply (rule hoare_decIndent_fresh)
      apply (rule hoare_Inr)
      done
    have body: "hoare (ready k)
        (\<lambda>ctx. andThen (println ctx None []) (\<lambda>ctx.
                andThen (incIndent ctx) (\<lambda>ctx.
                andThen (visitAllStatements em ts ctx) (\<lambda>ctx.
                andThen (decIndent ctx) (\<lambda>ctx.
                if fs \<noteq> [] then
                  andThen (println ctx sp ''} else {'') (\<lambda>ctx.
                  andThen (incIndent ctx) (\<lambda>ctx.
                  andThen (visitAllStatements em fs ctx) (\<lambda>ctx.
                  decIndent ctx)))
                else Inr ctx))))) (ready k) (tag_errors strict)"
      apply (rule hoare_post [of _ _ "fresh_line k"])
       apply (rule hoare_bind [OF hoare_println])
       apply (rule hoare_bind [OF hoare_incIndent_fresh])
       apply (rule hoare_bind [OF hoare_stmts_fresh], erule ts)
       apply (rule hoare_bind [OF hoare_decIndent_fresh els])
      apply (erule fresh_line_ready)
      done
    show ?thesis
      unfolding eq
      apply (rule hoare_bind [OF hoare_print])
      apply (rule hoare_bind [OF cond])
      apply (rule hoare_bind [OF hoare_print])
      apply (rule hoare_bind [OF body close])
      done
  qed
next
  case (ThrowStmt e sp)
  have eq: "visitStatement em (ThrowStmt e sp)
      = (\<lambda>c. andThen (print c sp ''throw '' False) (\<lambda>c.
           andThen (visitExpression em e c) (\<lambda>c. println c sp '';'')))"
    by (rule ext) simp
  from ThrowStmt have "hoare (ready k) (visitExpression em e) (ready k) (tag_errors strict)"
    by (simp add: expr_hoare)
  then show ?case
    unfolding eq by - (rule hoare_bind, rule hoare_print, erule hoare_bind, rule hoare_println)
next
  case (CommentStmt c sp)
  have eq: "visitStatement em (CommentStmt c sp) = forEach_println sp (split_newline c)"
    by (rule ext) simp
  show ?case
    unfolding eq by (rule hoare_forEach_println) (rule split_newline_nonempty)
qed

text \<open>
  Claim C6. Rendering fails in two cases only. A read of a variable whose builtin tag is
  not one of the four recognized ones raises the error that names the tag, and a binary
  operator expression whose operator is not in the table raises the error that names
  the operator, in every context. From a context that has a line (every context made by
  the constructor and written to by the engine has one), every expression and every
  statement whose tags are all known renders to a context, empty blocks and empty
  collections included; and an error raised by an expression or a statement is always one
  of the two above, never a \<open>TypeError\<close> of the engine.
\<close>

theorem rendering_fails_only_on_unknown_tags:
  "(b \<notin> set recognized_builtins \<longrightarrow>
      visitExpression em (ReadVarExpr (VarBuiltin b) sp) ctx = Inl (Unknown_builtin_variable b))
   \<and> (op \<notin> set operator_table \<longrightarrow>
      visitExpression em (BinaryOperatorExpr op lhs rhs sp) ctx = Inl (Unknown_operator op))
   \<and> (ctx_lines ctx \<noteq> [] \<and> known_tags e \<longrightarrow> (\<exists>c. visitExpression em e ctx = Inr c))
   \<and> (ctx_lines ctx \<noteq> [] \<and> known_tags_stmt s \<longrightarrow> (\<exists>c. visitStatement em s ctx = Inr c))
   \<and> (ctx_lines ctx \<noteq> [] \<and> visitExpression em e ctx = Inl err \<longrightarrow> fatal_tag err)
   \<and> (ctx_lines ctx \<noteq> [] \<and> visitStatement em s ctx = Inl err \<longrightarrow> fatal_tag err)"
proof -
  have a: "visitExpression em (ReadVarExpr (VarBuiltin b) sp) ctx = Inl (Unknown_builtin_variable b)"
    if "b \<notin> set recognized_builtins"
    using that builtinVarName_cases [of b] by (auto simp: andThen_def)
  have b: "visitExpression em (BinaryOperatorExpr op lhs rhs sp) ctx = Inl (Unknown_operator op)"
    if "op \<notin> set operator_table"
    using that opStr_cases [of op] by (auto simp: andThen_def)
  have r: "ready (ctx_indent ctx) ctx" if "ctx_lines ctx \<noteq> []"
    using that by (simp add: ready_def)
  have c: "\<exists>c. visitExpression em e ctx = Inr c" if "ctx_lines ctx \<noteq> []" "known_tags e"
  proof (cases "visitExpression em e ctx")
    case (Inl x)
    with hoare_Inl_D [OF expr_hoare [of True e "ctx_indent ctx" em] r] that
    show ?thesis by (simp add: tag_errors_def)
  next
    case (Inr c)
    then show ?thesis by simp
  qed
  have d: "\<exists>c. visitStatement em s ctx = Inr c" if "ctx_lines ctx \<noteq> []" "known_tags_stmt s"
  proof (cases "visitStatement em s ctx")
    case (Inl x)
    with hoare_Inl_D [OF stmt_hoare [of True s "ctx_indent ctx" em] r] that
    show ?thesis by (simp add: tag_errors_def)
  next
    case (Inr c)
    then show ?thesis by simp
  qed
  have e: "fatal_tag err" if "ctx_lines ctx \<noteq> []" "visitExpression em e ctx = Inl err"
    using hoare_Inl_D [OF expr_hoare [of False e "ctx_indent ctx" em] r] that
    by (simp add: tag_errors_def)
  have f: "fatal_tag err" if "ctx_lines ctx \<noteq> []" "visitStatement em s ctx = Inl err"
    using hoare_Inl_D [OF stmt_hoare [of False s "ctx_indent ctx" em] r] that
    by (simp add: tag_errors_def)
  show ?thesis
    using a b c d e f by blast
qed

theorem rendering_fails_only_on_unknown_tags_witness:
  "visitExpression example_emitter (ReadVarExpr (VarBuiltin (OtherBuiltinVar 7)) None) (createRoot [])
     = Inl (Unknown_builtin_variable (OtherBuiltinVar 7))
   \<and> visitExpression example_emitter
        (BinaryOperatorExpr (OtherBinaryOperator 3) (LiteralArrayExpr [] None) (LiteralArrayExpr [] None) None)
        (createRoot [])
     = Inl (Unknown_operator (OtherBinaryOperator 3))
   \<and> (\<exists>c. visitExpression example_emitter (LiteralMapExpr [] None) (createRoot []) = Inr c)
   \<and> (\<exists>c. visitStatement example_emitter (IfStmt (LiteralArrayExpr [] None) [] [] None) (createRoot [])
          = Inr c)"
  using rendering_fails_only_on_unknown_tags
    [of "OtherBuiltinVar 7" example_emitter None "createRoot []" "OtherBinaryOperator 3"
        "LiteralArrayExpr [] None" "LiteralArrayExpr [] None" "LiteralMapExpr [] None"
        "IfStmt (LiteralArrayExpr [] None) [] [] None" TypeError]
  by (simp add: recognized_builtins_def operator_table_def createRoot_def
      new_EmitterVisitorContext_def)

section \<open>The layout of the rendered text\<close>

lemmas eval_simps = print_def println_def andThen_def currentLine_def set_currentLine_def
  lineIsEmpty_def set_indent_def incIndent_def decIndent_def removeEmptyLastLine_def
  createRoot_def new_EmitterVisitorContext_def new_EmittedLine_def toSource_def
  sourceLines_def createIndent_def INDENT_WITH_def rendered_def visitAllObjects_def
  Let_def example_emitter_def






text \<open>
  Claim C4. In a context that has a line, a write of a variable, of a key and of a
  property render as the assignment between parentheses when the current line has a
  fragment at the start of the rendering, and as the assignment alone when it has none.
  The statement \<^verbatim>\<open>obj.x = 1\<close> on an empty line renders
  \<^verbatim>\<open>obj.x = 1;\<close>, and the same write after \<^verbatim>\<open>return \<close> renders
  \<^verbatim>\<open>(obj.x = 1)\<close>.
\<close>

theorem assignment_parenthesized_iff_line_not_empty:
  "ctx_lines ctx \<noteq> [] \<longrightarrow>
     visitExpression em (WriteVarExpr n v sp) ctx
       = wrapped_unless_line_empty ctx sp (\<lambda>c.
           andThen (print c sp (n @ '' = '') False) (visitExpression em v))
     \<and> visitExpression em (WriteKeyExpr r i v sp) ctx
       = wrapped_unless_line_empty ctx sp (\<lambda>c.
           andThen (visitExpression em r c) (\<lambda>c.
           andThen (print c sp ''['' False) (\<lambda>c.
           andThen (visitExpression em i c) (\<lambda>c.
           andThen (print c sp ''] = '' False) (visitExpression em v)))))
     \<and> visitExpression em (WritePropExpr r n v sp) ctx
       = wrapped_unless_line_empty ctx sp (\<lambda>c.
           andThen (visitExpression em r c) (\<lambda>c.
           andThen (print c sp (''.'' @ n @ '' = '') False) (visitExpression em v)))
     \<and> rendered (visitStatement em
          (ExpressionStatement
             (WritePropExpr (ReadVarExpr (VarName ''obj'') spa) ''x''
                (LiteralExpr (LitNumber (SafeInteger False 1)) spb) spc) spd)
          (createRoot exportedVars)) = Inr ''obj.x = 1;''
     \<and> rendered (visitStatement em
          (ReturnStatement
             (WritePropExpr (ReadVarExpr (VarName ''obj'') spa) ''x''
                (LiteralExpr (LitNumber (SafeInteger False 1)) spb) spc) spd)
          (createRoot exportedVars)) = Inr ''return (obj.x = 1);''"
proof
  assume ne: "ctx_lines ctx \<noteq> []"
  have bind_assoc: "andThen (andThen m f) g = andThen m (\<lambda>x. andThen (f x) g)" for m f g
    by (cases m) (simp_all add: andThen_def)
  have right: "andThen m Inr = m" for m :: "error + EmitterVisitorContext"
    by (cases m) (simp_all add: andThen_def)
  have left: "andThen (Inr x) f = f x" for x f
    by (simp add: andThen_def)
  have wv: "visitExpression em (WriteVarExpr n v sp) ctx
       = wrapped_unless_line_empty ctx sp (\<lambda>c.
           andThen (print c sp (n @ '' = '') False) (visitExpression em v))"
    using ne
    by (cases "parts (last (ctx_lines ctx)) = []")
       (simp_all add: wrapped_unless_line_empty_def lineIsEmpty_eq bind_assoc right left)
  have wk: "visitExpression em (WriteKeyExpr r i v sp) ctx
       = wrapped_unless_line_empty ctx sp (\<lambda>c.
           andThen (visitExpression em r c) (\<lambda>c.
           andThen (print c sp ''['' False) (\<lambda>c.
           andThen (visitExpression em i c) (\<lambda>c.
           andThen (print c sp ''] = '' False) (visitExpression em v)))))"
    using ne
    by (cases "parts (last (ctx_lines ctx)) = []")
       (simp_all add: wrapped_unless_line_empty_def lineIsEmpty_eq bind_assoc right left)
  have wp: "visitExpression em (WritePropExpr r n v sp) ctx
       = wrapped_unless_line_empty ctx sp (\<lambda>c.
           andThen (visitExpression em r c) (\<lambda>c.
           andThen (print c sp (''.'' @ n @ '' = '') False) (visitExpression em v)))"
    using ne
    by (cases "parts (last (ctx_lines ctx)) = []")
       (simp_all add: wrapped_unless_line_empty_def lineIsEmpty_eq bind_assoc right left)
  have ex1: "rendered (visitStatement em
          (ExpressionStatement
             (WritePropExpr (ReadVarExpr (VarName ''obj'') spa) ''x''
                (LiteralExpr (LitNumber (SafeInteger False 1)) spb) spc) spd)
          (createRoot exportedVars)) = Inr ''obj.x = 1;''"
    by (simp add: eval_simps)
  have ex2: "rendered (visitStatement em
          (ReturnStatement
             (WritePropExpr (ReadVarExpr (VarName ''obj'') spa) ''x''
                (LiteralExpr (LitNumber (SafeInteger False 1)) spb) spc) spd)
          (createRoot exportedVars)) = Inr ''return (obj.x = 1);''"
    by (simp add: eval_simps)
  show "visitExpression em (WriteVarExpr n v sp) ctx
       = wrapped_unless_line_empty ctx sp (\<lambda>c.
           andThen (print c sp (n @ '' = '') False) (visitExpression em v))
     \<and> visitExpression em (WriteKeyExpr r i v sp) ctx
       = wrapped_unless_line_empty ctx sp (\<lambda>c.
           andThen (visitExpression em r c) (\<lambda>c.
           andThen (print c sp ''['' False) (\<lambda>c.
           andThen (visitExpression em i c) (\<lambda>c.
           andThen (print c sp ''] = '' False) (visitExpression em v)))))
     \<and> visitExpression em (WritePropExpr r n v sp) ctx
       = wrapped_unless_line_empty ctx sp (\<lambda>c.
           andThen (visitExpression em r c) (\<lambda>c.
           andThen (print c sp (''.'' @ n @ '' = '') False) (visitExpression em v)))
     \<and> rendered (visitStatement em
          (ExpressionStatement
             (WritePropExpr (ReadVarExpr (VarName ''obj'') spa) ''x''
                (LiteralExpr (LitNumber (SafeInteger False 1)) spb) spc) spd)
          (createRoot exportedVars)) = Inr ''obj.x = 1;''
     \<and> rendered (visitStatement em
          (ReturnStatement
             (WritePropExpr (ReadVarExpr (VarName ''obj'') spa) ''x''
                (LiteralExpr (LitNumber (SafeInteger False 1)) spb) spc) spd)
          (createRoot exportedVars)) = Inr ''return (obj.x = 1);''"
    using wv wk wp ex1 ex2 by blast
qed

theorem assignment_parenthesized_iff_line_not_empty_witness:
  "visitExpression example_emitter
     (WriteKeyExpr (ReadVarExpr (VarName ''a'') None) (LiteralExpr (LitNumber (SafeInteger False 0)) None)
        (LiteralExpr (LitNumber (SafeInteger False 1)) None) (Some 1)) (createRoot [])
     = Inr \<lparr>ctx_exportedVars = [], ctx_indent = 0,
            ctx_lines = [\<lparr>parts = [''a'', ''['', ''0'', ''] = '', ''1''],
                           srcSpans = [None, Some 1, None, Some 1, None], indent = 0\<rparr>]\<rparr>
   \<and> visitExpression example_emitter (WriteVarExpr ''x'' (LiteralExpr (LitNumber (SafeInteger False 1)) None) (Some 1))
       \<lparr>ctx_exportedVars = [], ctx_indent = 0,
          ctx_lines = [\<lparr>parts = [''f(''], srcSpans = [None], indent = 0\<rparr>]\<rparr>
     = Inr \<lparr>ctx_exportedVars = [], ctx_indent = 0,
            ctx_lines = [\<lparr>parts = [''f('', ''('', ''x = '', ''1'', '')''],
                           srcSpans = [None, Some 1, Some 1, None, Some 1], indent = 0\<rparr>]\<rparr>"
  using assignment_parenthesized_iff_line_not_empty
    [of "createRoot []" example_emitter "''x''" "LiteralExpr (LitNumber (SafeInteger False 1)) None" "Some 1"
        "ReadVarExpr (VarName ''a'') None" "LiteralExpr (LitNumber (SafeInteger False 0)) None"]
    assignment_parenthesized_iff_line_not_empty
    [of "\<lparr>ctx_exportedVars = [], ctx_indent = 0,
          ctx_lines = [\<lparr>parts = [''f(''], srcSpans = [None], indent = 0\<rparr>]\<rparr>"
        example_emitter "''x''" "LiteralExpr (LitNumber (SafeInteger False 1)) None" "Some 1"
        "ReadVarExpr (VarName ''a'') None" "LiteralExpr (LitNumber (SafeInteger False 0)) None"]
  by (simp add: eval_simps wrapped_unless_line_empty_def)

lemma andThen_assoc: "andThen (andThen m f) g = andThen m (\<lambda>x. andThen (f x) g)"
  by (cases m) (simp_all add: andThen_def)

lemma andThen_Inr_left: "andThen (Inr x) f = f x"
  by (simp add: andThen_def)



lemma print_emit:
  "ctx_lines ctx \<noteq> [] \<Longrightarrow> print ctx sp p False = Inr (emit ctx sp p)"
  by (simp add: print_eq emit_def)

lemma println_emit:
  "ctx_lines ctx \<noteq> [] \<Longrightarrow> println ctx sp p = Inr (open_line (emit ctx sp p))"
  by (simp add: println_def print_eq emit_def open_line_def)


lemma incIndent_with: "ctx_lines ctx \<noteq> [] \<Longrightarrow> incIndent ctx = Inr (with_indent (ctx_indent ctx + 1) ctx)"
  by (simp add: incIndent_def set_indent_eq with_indent_def)

lemma decIndent_with: "ctx_lines ctx \<noteq> [] \<Longrightarrow> decIndent ctx = Inr (with_indent (ctx_indent ctx - 1) ctx)"
  by (simp add: decIndent_def set_indent_eq with_indent_def)

lemma emit_lines [simp]: "ctx_lines ctx \<noteq> [] \<Longrightarrow> ctx_lines (emit ctx sp p) \<noteq> []"
  by (simp add: emit_def)

lemma open_line_lines [simp]: "ctx_lines (open_line ctx) \<noteq> []"
  by (simp add: open_line_def)

lemma with_indent_lines [simp]: "ctx_lines (with_indent i ctx) \<noteq> []"
  by (simp add: with_indent_def)

lemma emit_indent [simp]: "ctx_indent (emit ctx sp p) = ctx_indent ctx"
  by (simp add: emit_def)

lemma open_line_indent [simp]: "ctx_indent (open_line ctx) = ctx_indent ctx"
  by (simp add: open_line_def)

lemma with_indent_indent [simp]: "ctx_indent (with_indent i ctx) = i"
  by (simp add: with_indent_def)













section \<open>Properties kept by the rendering of a tree\<close>

lemma kept_by_stepsI:
  assumes "\<And>n c. R n c \<Longrightarrow> ctx_lines c \<noteq> []"
    and "\<And>n c sp p. R n c \<Longrightarrow> R n (emit c sp p)"
    and "\<And>n c. R n c \<Longrightarrow> F n (open_line c)"
    and "\<And>n c. R n c \<Longrightarrow> R (Suc n) (with_indent (ctx_indent c + 1) c)"
    and "\<And>n c. R (Suc n) c \<Longrightarrow> R n (with_indent (ctx_indent c - 1) c)"
    and "\<And>n c. F n c \<Longrightarrow> ctx_lines c \<noteq> [] \<and> parts (last (ctx_lines c)) = []
           \<and> R n (c\<lparr>ctx_lines := butlast (ctx_lines c)\<rparr>)"
    and "\<And>n c. multi \<Longrightarrow> F n c \<Longrightarrow> R n c"
    and "\<And>n c. multi \<Longrightarrow> F n c \<Longrightarrow> F (Suc n) (with_indent (ctx_indent c + 1) c)"
    and "\<And>n c. multi \<Longrightarrow> F (Suc n) c \<Longrightarrow> F n (with_indent (ctx_indent c - 1) c)"
  shows "kept_by_steps multi R F"
  unfolding kept_by_steps_def
proof (intro allI conjI impI)
  fix n c
  show "R n c \<Longrightarrow> ctx_lines c \<noteq> []" by (rule assms(1))
  show "\<And>sp p. R n c \<Longrightarrow> R n (emit c sp p)" by (rule assms(2))
  show "R n c \<Longrightarrow> F n (open_line c)" by (rule assms(3))
  show "R n c \<Longrightarrow> R (Suc n) (with_indent (ctx_indent c + 1) c)" by (rule assms(4))
  show "R (Suc n) c \<Longrightarrow> R n (with_indent (ctx_indent c - 1) c)" by (rule assms(5))
  show "F n c \<Longrightarrow> ctx_lines c \<noteq> []" using assms(6) by blast
  show "F n c \<Longrightarrow> parts (last (ctx_lines c)) = []" using assms(6) by blast
  show "F n c \<Longrightarrow> R n (c\<lparr>ctx_lines := butlast (ctx_lines c)\<rparr>)" using assms(6) by blast
  show "multi \<Longrightarrow> F n c \<Longrightarrow> R n c" by (rule assms(7))
  show "multi \<Longrightarrow> F n c \<Longrightarrow> F (Suc n) (with_indent (ctx_indent c + 1) c)" by (rule assms(8))
  show "multi \<Longrightarrow> F (Suc n) c \<Longrightarrow> F n (with_indent (ctx_indent c - 1) c)" by (rule assms(9))
qed

lemma kept_lines: "kept_by_steps multi R F \<Longrightarrow> R n c \<Longrightarrow> ctx_lines c \<noteq> []"
  unfolding kept_by_steps_def by blast

lemma kept_fresh_lines: "kept_by_steps multi R F \<Longrightarrow> F n c \<Longrightarrow> ctx_lines c \<noteq> []"
  unfolding kept_by_steps_def by blast

lemma kept_fresh_ready: "kept_by_steps True R F \<Longrightarrow> F n c \<Longrightarrow> R n c"
  unfolding kept_by_steps_def by blast

lemma kept_print:
  assumes "kept_by_steps multi R F"
  shows "hoare (R n) (\<lambda>c. print c sp p False) (R n) any_error"
proof (rule hoareI)
  fix ctx assume "R n ctx"
  with assms have "ctx_lines ctx \<noteq> []" "R n (emit ctx sp p)"
    unfolding kept_by_steps_def by blast+
  then show "case print ctx sp p False of Inl e \<Rightarrow> any_error e | Inr c \<Rightarrow> R n c"
    by (simp add: print_emit)
qed

lemma kept_print_fragment:
  assumes "kept_by_steps multi R F" and "p \<noteq> []"
  shows "hoare (R n) (\<lambda>c. print c sp p False) (with_fragment R n) any_error"
proof (rule hoareI)
  fix ctx assume "R n ctx"
  with assms have "ctx_lines ctx \<noteq> []" "R n (emit ctx sp p)"
    unfolding kept_by_steps_def by blast+
  with assms(2) show "case print ctx sp p False of Inl e \<Rightarrow> any_error e | Inr c \<Rightarrow> with_fragment R n c"
    by (simp add: print_emit with_fragment_def) (simp add: emit_def)
qed

lemma kept_println:
  assumes "kept_by_steps multi R F"
  shows "hoare (R n) (\<lambda>c. println c sp p) (F n) any_error"
proof (rule hoareI)
  fix ctx assume "R n ctx"
  with assms have "ctx_lines ctx \<noteq> []" "F n (open_line (emit ctx sp p))"
    unfolding kept_by_steps_def by blast+
  then show "case println ctx sp p of Inl e \<Rightarrow> any_error e | Inr c \<Rightarrow> F n c"
    by (simp add: println_emit)
qed

lemma kept_print_any:
  assumes "kept_by_steps multi R F" and "nl \<longrightarrow> multi"
  shows "hoare (R n) (\<lambda>c. print c sp p nl) (R n) any_error"
proof (cases nl)
  case False
  then show ?thesis using kept_print [OF assms(1)] by simp
next
  case True
  with assms(2) have K: "kept_by_steps True R F" using assms(1) by simp
  have "hoare (R n) (\<lambda>c. println c sp p) (R n) any_error"
    by (rule hoare_post [OF kept_println [OF K]]) (rule kept_fresh_ready [OF K])
  with True show ?thesis by (simp add: println_def)
qed

lemma kept_incIndent:
  assumes "kept_by_steps multi R F"
  shows "hoare (R n) incIndent (R (Suc n)) any_error"
proof (rule hoareI)
  fix ctx assume "R n ctx"
  with assms have "ctx_lines ctx \<noteq> []" "R (Suc n) (with_indent (ctx_indent ctx + 1) ctx)"
    unfolding kept_by_steps_def by blast+
  then show "case incIndent ctx of Inl e \<Rightarrow> any_error e | Inr c \<Rightarrow> R (Suc n) c"
    by (simp add: incIndent_with)
qed

lemma kept_decIndent:
  assumes "kept_by_steps multi R F"
  shows "hoare (R (Suc n)) decIndent (R n) any_error"
proof (rule hoareI)
  fix ctx assume "R (Suc n) ctx"
  with assms have "ctx_lines ctx \<noteq> []" "R n (with_indent (ctx_indent ctx - 1) ctx)"
    unfolding kept_by_steps_def by blast+
  then show "case decIndent ctx of Inl e \<Rightarrow> any_error e | Inr c \<Rightarrow> R n c"
    by (simp add: decIndent_with)
qed

lemma kept_lineIsEmpty:
  assumes "kept_by_steps multi R F"
    and "hoare (R n) (g True) Q any_error" "hoare (R n) (g False) Q any_error"
  shows "hoare (R n) (\<lambda>c. andThen (lineIsEmpty c) (\<lambda>b. g b c)) Q any_error"
proof (rule hoareI)
  fix ctx assume r: "R n ctx"
  then have ne: "ctx_lines ctx \<noteq> []" by (rule kept_lines [OF assms(1)])
  show "case andThen (lineIsEmpty ctx) (\<lambda>b. g b ctx) of Inl e \<Rightarrow> any_error e | Inr c \<Rightarrow> Q c"
  proof (cases "parts (last (ctx_lines ctx)) = []")
    case True
    with assms(2) r ne show ?thesis
      by (simp add: lineIsEmpty_eq andThen_def hoare_def)
  next
    case False
    with assms(3) r ne show ?thesis
      by (simp add: lineIsEmpty_eq andThen_def hoare_def)
  qed
qed

lemma kept_loop:
  assumes "kept_by_steps multi R F" and "nl \<longrightarrow> multi"
    and "\<And>x. x \<in> set xs \<Longrightarrow> hoare (R n) (h x) (R n) any_error"
  shows "hoare (R n) (\<lambda>c. visitAllObjects_loop h xs i c sep nl) (R n) any_error"
  using assms(3)
proof (induction xs arbitrary: i)
  case Nil
  show ?case by (rule hoareI) simp
next
  case (Cons x xs)
  have hd: "hoare (R n) (h x) (R n) any_error" using Cons.prems by simp
  have tl: "hoare (R n) (\<lambda>c. visitAllObjects_loop h xs (i + 1) c sep nl) (R n) any_error"
    using Cons.IH Cons.prems by simp
  have sepr: "hoare (R n) (\<lambda>c. if 0 < i then print c None sep nl else Inr c) (R n) any_error"
    by (rule hoare_if) (rule kept_print_any [OF assms(1,2)], rule hoare_Inr)
  show ?case
    unfolding visitAllObjects_loop.simps
    by (rule hoare_bind [OF sepr]) (rule hoare_bind [OF hd tl])
qed

lemma kept_visitAllObjects:
  assumes "kept_by_steps multi R F" and "nl \<longrightarrow> multi"
    and "\<And>x. x \<in> set xs \<Longrightarrow> hoare (R n) (h x) (R n) any_error"
  shows "hoare (R n) (\<lambda>c. visitAllObjects h xs c sep nl) (R n) any_error"
  unfolding visitAllObjects_def
proof (rule hoare_bind [OF kept_loop [OF assms]], assumption)
  show "hoare (R n) (\<lambda>ctx. if nl then println ctx None [] else Inr ctx) (R n) any_error"
  proof (rule hoare_if)
    assume nl
    then have "hoare (R n) (\<lambda>c. print c None [] nl) (R n) any_error"
      using kept_print_any [OF assms(1,2)] by simp
    with \<open>nl\<close> show "hoare (R n) (\<lambda>ctx. println ctx None []) (R n) any_error"
      by (simp add: println_def)
  next
    show "hoare (R n) Inr (R n) any_error" by (rule hoare_Inr)
  qed
qed

lemma expr_kept:
  assumes K: "kept_by_steps multi R F"
  shows "multi \<or> single_line e \<Longrightarrow> hoare (R j) (visitExpression em e) (R j) any_error"
    and entry_kept:
    "multi \<or> single_line_entry en \<Longrightarrow> hoare (R j) (visitMapEntry em sp0 en) (R j) any_error"
proof (induction e and en arbitrary: j and j sp0)
  note steps = hoare_bind hoare_Inr kept_print [OF K] kept_incIndent [OF K] kept_decIndent [OF K]
  {
    case (ReadVarExpr v sp)
    have eq: "visitExpression em (ReadVarExpr v sp)
        = (\<lambda>c. andThen (case v of VarName n \<Rightarrow> Inr n | VarBuiltin b \<Rightarrow> builtinVarName b)
                  (\<lambda>n. print c sp n False))"
      by (rule ext) simp
    show ?case
      unfolding eq by (rule hoare_const_bind) (rule steps, simp add: any_error_def)
  next
    case (WriteVarExpr n v sp)
    have eq: "visitExpression em (WriteVarExpr n v sp)
        = (\<lambda>c. andThen (lineIsEmpty c) (\<lambda>b.
             (\<lambda>c. andThen (if \<not> b then print c sp ''('' False else Inr c) (\<lambda>c.
                   andThen (print c sp (n @ '' = '') False) (\<lambda>c.
                   andThen (visitExpression em v c) (\<lambda>c.
                   if \<not> b then print c sp '')'' False else Inr c)))) c))"
      by (rule ext) simp
    have v: "hoare (R j) (visitExpression em v) (R j) any_error"
      using WriteVarExpr by auto
    show ?case
      unfolding eq by (rule kept_lineIsEmpty [OF K]; simp; (rule steps v)+)
  next
    case (WriteKeyExpr r i v sp)
    have eq: "visitExpression em (WriteKeyExpr r i v sp)
        = (\<lambda>c. andThen (lineIsEmpty c) (\<lambda>b.
             (\<lambda>c. andThen (if \<not> b then print c sp ''('' False else Inr c) (\<lambda>c.
                   andThen (visitExpression em r c) (\<lambda>c.
                   andThen (print c sp ''['' False) (\<lambda>c.
                   andThen (visitExpression em i c) (\<lambda>c.
                   andThen (print c sp ''] = '' False) (\<lambda>c.
                   andThen (visitExpression em v c) (\<lambda>c.
                   if \<not> b then print c sp '')'' False else Inr c))))))) c))"
      by (rule ext) simp
    have sub: "hoare (R j) (visitExpression em r) (R j) any_error"
      "hoare (R j) (visitExpression em i) (R j) any_error"
      "hoare (R j) (visitExpression em v) (R j) any_error"
      using WriteKeyExpr by auto
    show ?case
      unfolding eq by (rule kept_lineIsEmpty [OF K]; simp; (rule steps sub)+)
  next
    case (WritePropExpr r n v sp)
    have eq: "visitExpression em (WritePropExpr r n v sp)
        = (\<lambda>c. andThen (lineIsEmpty c) (\<lambda>b.
             (\<lambda>c. andThen (if \<not> b then print c sp ''('' False else Inr c) (\<lambda>c.
                   andThen (visitExpression em r c) (\<lambda>c.
                   andThen (print c sp (''.'' @ n @ '' = '') False) (\<lambda>c.
                   andThen (visitExpression em v c) (\<lambda>c.
                   if \<not> b then print c sp '')'' False else Inr c))))) c))"
      by (rule ext) simp
    have sub: "hoare (R j) (visitExpression em r) (R j) any_error"
      "hoare (R j) (visitExpression em v) (R j) any_error"
      using WritePropExpr by auto
    show ?case
      unfolding eq by (rule kept_lineIsEmpty [OF K]; simp; (rule steps sub)+)
  next
    case (InvokeMethodExpr r m args sp)
    have r: "hoare (R j) (visitExpression em r) (R j) any_error"
      using InvokeMethodExpr by auto
    have args: "hoare (R j) (\<lambda>c. visitAllObjects (visitExpression em) args c '','' False) (R j) any_error"
      by (rule kept_visitAllObjects [OF K]) (use InvokeMethodExpr in auto)
    show ?case
    proof (cases "case m of MethodName n \<Rightarrow> Some n | MethodBuiltin b \<Rightarrow> getBuiltinMethodName em b")
      case None
      then have eq: "visitExpression em (InvokeMethodExpr r m args sp)
          = (\<lambda>c. andThen (visitExpression em r c) Inr)"
        by (intro ext) simp
      show ?thesis
        unfolding eq by (rule steps r)+
    next
      case (Some n)
      then have eq: "visitExpression em (InvokeMethodExpr r m args sp)
          = (\<lambda>c. andThen (visitExpression em r c) (\<lambda>c.
               andThen (print c sp (''.'' @ n @ ''('') False) (\<lambda>c.
               andThen (visitAllObjects (visitExpression em) args c '','' False) (\<lambda>c.
               print c sp '')'' False))))"
        by (intro ext) simp
      show ?thesis
        unfolding eq by (rule steps r args)+
    qed
  next
    case (InvokeFunctionExpr f args sp)
    have eq: "visitExpression em (InvokeFunctionExpr f args sp)
        = (\<lambda>c. andThen (visitExpression em f c) (\<lambda>c.
             andThen (print c sp ''('' False) (\<lambda>c.
             andThen (visitAllObjects (visitExpression em) args c '','' False) (\<lambda>c.
             print c sp '')'' False))))"
      by (rule ext) simp
    have f: "hoare (R j) (visitExpression em f) (R j) any_error"
      using InvokeFunctionExpr by auto
    have args: "hoare (R j) (\<lambda>c. visitAllObjects (visitExpression em) args c '','' False) (R j) any_error"
      by (rule kept_visitAllObjects [OF K]) (use InvokeFunctionExpr in auto)
    show ?case
      unfolding eq by (rule steps f args)+
  next
    case (InstantiateExpr cl args sp)
    have eq: "visitExpression em (InstantiateExpr cl args sp)
        = (\<lambda>c. andThen (print c sp ''new '' False) (\<lambda>c.
             andThen (visitExpression em cl c) (\<lambda>c.
             andThen (print c sp ''('' False) (\<lambda>c.
             andThen (visitAllObjects (visitExpression em) args c '','' False) (\<lambda>c.
             print c sp '')'' False)))))"
      by (rule ext) simp
    have f: "hoare (R j) (visitExpression em cl) (R j) any_error"
      using InstantiateExpr by auto
    have args: "hoare (R j) (\<lambda>c. visitAllObjects (visitExpression em) args c '','' False) (R j) any_error"
      by (rule kept_visitAllObjects [OF K]) (use InstantiateExpr in auto)
    show ?case
      unfolding eq by (rule steps f args)+
  next
    case (LiteralExpr v sp)
    show ?case
    proof (cases "\<exists>s. v = LitString s")
      case True
      then obtain s where s: "v = LitString s" by blast
      obtain t where "escapeIdentifier (Some s) (escapeDollarInStrings em) True = Some t"
        by (simp add: escapeIdentifier_def Let_def)
      then have eq: "visitExpression em (LiteralExpr v sp) = (\<lambda>c. print c sp t False)"
        by (intro ext) (simp add: s)
      show ?thesis
        unfolding eq by (rule steps)
    next
      case False
      then have eq: "visitExpression em (LiteralExpr v sp)
          = (\<lambda>c. print c sp (template_of_literal v) False)"
        by (intro ext) (cases v; simp)
      show ?thesis
        unfolding eq by (rule steps)
    qed
  next
    case (ConditionalExpr c t f sp)
    have eq: "visitExpression em (ConditionalExpr c t f sp)
        = (\<lambda>ctx. andThen (print ctx sp ''('' False) (\<lambda>ctx.
             andThen (visitExpression em c ctx) (\<lambda>ctx.
             andThen (print ctx sp ''? '' False) (\<lambda>ctx.
             andThen (visitExpression em t ctx) (\<lambda>ctx.
             andThen (print ctx sp '': '' False) (\<lambda>ctx.
             andThen (visitExpression em f ctx) (\<lambda>ctx.
             print ctx sp '')'' False)))))))"
      by (rule ext) simp
    have sub: "hoare (R j) (visitExpression em c) (R j) any_error"
      "hoare (R j) (visitExpression em t) (R j) any_error"
      "hoare (R j) (visitExpression em f) (R j) any_error"
      using ConditionalExpr by auto
    show ?case
      unfolding eq by (rule steps sub)+
  next
    case (NotExpr c sp)
    have eq: "visitExpression em (NotExpr c sp)
        = (\<lambda>ctx. andThen (print ctx sp ''!'' False) (visitExpression em c))"
      by (rule ext) simp
    have sub: "hoare (R j) (visitExpression em c) (R j) any_error"
      using NotExpr by auto
    show ?case
      unfolding eq by (rule steps sub)+
  next
    case (BinaryOperatorExpr op l r sp)
    have eq: "visitExpression em (BinaryOperatorExpr op l r sp)
        = (\<lambda>ctx. andThen (opStr op) (\<lambda>s.
             (\<lambda>ctx. andThen (print ctx sp ''('' False) (\<lambda>ctx.
                     andThen (visitExpression em l ctx) (\<lambda>ctx.
                     andThen (print ctx sp ('' '' @ s @ '' '') False) (\<lambda>ctx.
                     andThen (visitExpression em r ctx) (\<lambda>ctx.
                     print ctx sp '')'' False))))) ctx))"
      by (rule ext) simp
    have sub: "hoare (R j) (visitExpression em l) (R j) any_error"
      "hoare (R j) (visitExpression em r) (R j) any_error"
      using BinaryOperatorExpr by auto
    show ?case
      unfolding eq by (rule hoare_const_bind) ((rule steps sub)+, simp add: any_error_def)
  next
    case (ReadPropExpr r n sp)
    have eq: "visitExpression em (ReadPropExpr r n sp)
        = (\<lambda>ctx. andThen (visitExpression em r ctx) (\<lambda>ctx.
             andThen (print ctx sp ''.'' False) (\<lambda>ctx. print ctx sp n False)))"
      by (rule ext) simp
    have sub: "hoare (R j) (visitExpression em r) (R j) any_error"
      using ReadPropExpr by auto
    show ?case
      unfolding eq by (rule steps sub)+
  next
    case (ReadKeyExpr r i sp)
    have eq: "visitExpression em (ReadKeyExpr r i sp)
        = (\<lambda>ctx. andThen (visitExpression em r ctx) (\<lambda>ctx.
             andThen (print ctx sp ''['' False) (\<lambda>ctx.
             andThen (visitExpression em i ctx) (\<lambda>ctx. print ctx sp '']'' False))))"
      by (rule ext) simp
    have sub: "hoare (R j) (visitExpression em r) (R j) any_error"
      "hoare (R j) (visitExpression em i) (R j) any_error"
      using ReadKeyExpr by auto
    show ?case
      unfolding eq by (rule steps sub)+
  next
    case (LiteralArrayExpr es sp)
    have eq: "visitExpression em (LiteralArrayExpr es sp)
        = (\<lambda>ctx. andThen (print ctx sp ''['' (length es > 1)) (\<lambda>ctx.
             andThen (incIndent ctx) (\<lambda>ctx.
             andThen (visitAllObjects (visitExpression em) es ctx '','' (length es > 1)) (\<lambda>ctx.
             andThen (decIndent ctx) (\<lambda>ctx. print ctx sp '']'' (length es > 1))))))"
      by (rule ext) (simp add: Let_def)
    have nl: "length es > 1 \<longrightarrow> multi"
      using LiteralArrayExpr.prems by auto
    have body: "hoare (R (Suc j))
        (\<lambda>c. visitAllObjects (visitExpression em) es c '','' (length es > 1)) (R (Suc j)) any_error"
      by (rule kept_visitAllObjects [OF K nl]) (use LiteralArrayExpr in auto)
    show ?case
      unfolding eq by (rule steps kept_print_any [OF K nl] body)+
  next
    case (LiteralMapExpr es sp)
    have eq: "visitExpression em (LiteralMapExpr es sp)
        = (\<lambda>ctx. andThen (print ctx sp ''{'' (length es > 1)) (\<lambda>ctx.
             andThen (incIndent ctx) (\<lambda>ctx.
             andThen (visitAllObjects (visitMapEntry em sp) es ctx '','' (length es > 1)) (\<lambda>ctx.
             andThen (decIndent ctx) (\<lambda>ctx. print ctx sp ''}'' (length es > 1))))))"
      by (rule ext) (simp add: Let_def)
    have nl: "length es > 1 \<longrightarrow> multi"
      using LiteralMapExpr.prems by auto
    have body: "hoare (R (Suc j))
        (\<lambda>c. visitAllObjects (visitMapEntry em sp) es c '','' (length es > 1)) (R (Suc j)) any_error"
      by (rule kept_visitAllObjects [OF K nl]) (use LiteralMapExpr in auto)
    show ?case
      unfolding eq by (rule steps kept_print_any [OF K nl] body)+
  next
    case (LiteralMapEntry key v q)
    have "\<exists>t. visitMapEntry em sp0 (LiteralMapEntry key v q)
        = (\<lambda>ctx. andThen (print ctx sp0 t False) (visitExpression em v))"
      by (intro exI ext) simp
    then obtain t where eq: "visitMapEntry em sp0 (LiteralMapEntry key v q)
        = (\<lambda>ctx. andThen (print ctx sp0 t False) (visitExpression em v))" by blast
    have sub: "hoare (R j) (visitExpression em v) (R j) any_error"
      using LiteralMapEntry by auto
    show ?case
      unfolding eq by (rule steps sub)+
  }
qed

lemma kept_removeEmptyLastLine:
  assumes K: "kept_by_steps multi R F"
  shows "hoare (\<lambda>c. with_fragment R n c \<or> F n c) removeEmptyLastLine (R n) any_error"
proof (rule hoareI)
  fix ctx assume "with_fragment R n ctx \<or> F n ctx"
  then show "case removeEmptyLastLine ctx of Inl e \<Rightarrow> any_error e | Inr c \<Rightarrow> R n c"
  proof
    assume w: "with_fragment R n ctx"
    then have "ctx_lines ctx \<noteq> []" using kept_lines [OF K] by (auto simp: with_fragment_def)
    with w show ?thesis by (simp add: with_fragment_def removeEmptyLastLine_eq)
  next
    assume "F n ctx"
    with K have "ctx_lines ctx \<noteq> []" "parts (last (ctx_lines ctx)) = []"
      "R n (ctx\<lparr>ctx_lines := butlast (ctx_lines ctx)\<rparr>)"
      unfolding kept_by_steps_def by blast+
    then show ?thesis by (simp add: removeEmptyLastLine_eq)
  qed
qed

lemma kept_incIndent_fresh:
  assumes K: "kept_by_steps True R F"
  shows "hoare (F n) incIndent (F (Suc n)) any_error"
proof (rule hoareI)
  fix ctx assume "F n ctx"
  with K have "ctx_lines ctx \<noteq> []" "F (Suc n) (with_indent (ctx_indent ctx + 1) ctx)"
    unfolding kept_by_steps_def by blast+
  then show "case incIndent ctx of Inl e \<Rightarrow> any_error e | Inr c \<Rightarrow> F (Suc n) c"
    by (simp add: incIndent_with)
qed

lemma kept_decIndent_fresh:
  assumes K: "kept_by_steps True R F"
  shows "hoare (F (Suc n)) decIndent (F n) any_error"
proof (rule hoareI)
  fix ctx assume "F (Suc n) ctx"
  with K have "ctx_lines ctx \<noteq> []" "F n (with_indent (ctx_indent ctx - 1) ctx)"
    unfolding kept_by_steps_def by blast+
  then show "case decIndent ctx of Inl e \<Rightarrow> any_error e | Inr c \<Rightarrow> F n c"
    by (simp add: decIndent_with)
qed

lemma kept_println_fresh:
  assumes K: "kept_by_steps True R F"
  shows "hoare (F n) (\<lambda>c. println c sp p) (F n) any_error"
  by (rule hoare_pre [OF kept_println [OF K]]) (rule kept_fresh_ready [OF K])

lemma split_newline_single: "CHR 0x0A \<notin> set c \<Longrightarrow> split_newline c = [c]"
  by (induction c) auto

lemma kept_forEach_println:
  assumes K: "kept_by_steps multi R F"
  shows "ls \<noteq> [] \<Longrightarrow> multi \<or> length ls = 1
     \<Longrightarrow> hoare (R n) (forEach_println sp ls) (F n) any_error"
proof (induction ls)
  case Nil
  then show ?case by simp
next
  case (Cons l ls)
  show ?case
  proof (cases ls)
    case Nil
    have "forEach_println sp [l] = (\<lambda>c. andThen (println c sp (''// '' @ l)) Inr)"
      by (rule ext) (simp add: andThen_def split: sum.splits)
    then show ?thesis
      unfolding Nil by simp (rule hoare_bind [OF kept_println [OF K] hoare_Inr])
  next
    case (Cons a as)
    with Cons.prems have m: multi by simp
    with K have K': "kept_by_steps True R F" by simp
    have eq: "forEach_println sp (l # ls)
        = (\<lambda>c. andThen (println c sp (''// '' @ l)) (forEach_println sp ls))"
      by (rule ext) simp
    have "ls \<noteq> []" using Cons by simp
    then have "hoare (R n) (forEach_println sp ls) (F n) any_error"
      using Cons.IH m by simp
    then have "hoare (F n) (forEach_println sp ls) (F n) any_error"
      by (rule hoare_pre) (rule kept_fresh_ready [OF K'])
    then show ?thesis
      unfolding eq by (rule hoare_bind [OF kept_println [OF K]])
  qed
qed

lemma kept_stmts_fresh:
  assumes K: "kept_by_steps True R F"
    and "\<And>s. s \<in> set ss \<Longrightarrow> hoare (R n) (visitStatement em s) (F n) any_error"
  shows "hoare (F n) (visitAllStatements em ss) (F n) any_error"
  using assms(2)
proof (induction ss)
  case Nil
  show ?case by (rule hoareI) simp
next
  case (Cons s ss)
  have eq: "visitAllStatements em (s # ss)
      = (\<lambda>c. andThen (visitStatement em s c) (visitAllStatements em ss))"
    by (rule ext) simp
  have "hoare (F n) (visitStatement em s) (F n) any_error"
    by (rule hoare_pre [of "R n"]) (simp add: Cons.prems, rule kept_fresh_ready [OF K])
  moreover have "hoare (F n) (visitAllStatements em ss) (F n) any_error"
    using Cons by simp
  ultimately show ?case
    unfolding eq by (rule hoare_bind)
qed

lemma kept_stmts_inline:
  assumes "\<And>s. s \<in> set ss \<Longrightarrow> hoare (R n) (visitStatement em s) (F n) any_error"
    and "length ss \<le> 1"
  shows "hoare (with_fragment R n) (visitAllStatements em ss)
           (\<lambda>c. with_fragment R n c \<or> F n c) any_error"
proof (cases ss)
  case Nil
  then show ?thesis by (simp add: hoare_def)
next
  case (Cons s ss')
  with assms(2) have ss: "ss = [s]" by simp
  have eq: "visitAllStatements em [s] = (\<lambda>c. andThen (visitStatement em s c) Inr)"
    by (rule ext) (simp add: andThen_def split: sum.splits)
  have "hoare (with_fragment R n) (visitStatement em s) (F n) any_error"
    by (rule hoare_pre [of "R n"]) (simp add: assms(1) ss, simp add: with_fragment_def)
  then have "hoare (with_fragment R n) (visitAllStatements em [s]) (F n) any_error"
    unfolding eq by (rule hoare_bind) (rule hoare_Inr)
  then show ?thesis
    unfolding ss by (rule hoare_post) simp
qed

lemma stmt_kept:
  assumes K: "kept_by_steps multi R F"
  shows "multi \<or> single_line_stmt s \<Longrightarrow> hoare (R j) (visitStatement em s) (F j) any_error"
proof (induction s arbitrary: j)
  case (ExpressionStatement e sp)
  have eq: "visitStatement em (ExpressionStatement e sp)
      = (\<lambda>c. andThen (visitExpression em e c) (\<lambda>c. println c sp '';''))"
    by (rule ext) simp
  have "hoare (R j) (visitExpression em e) (R j) any_error"
    using ExpressionStatement by (intro expr_kept [OF K]) simp
  then show ?case
    unfolding eq by (rule hoare_bind) (rule kept_println [OF K])
next
  case (ReturnStatement e sp)
  have eq: "visitStatement em (ReturnStatement e sp)
      = (\<lambda>c. andThen (print c sp ''return '' False) (\<lambda>c.
           andThen (visitExpression em e c) (\<lambda>c. println c sp '';'')))"
    by (rule ext) simp
  have "hoare (R j) (visitExpression em e) (R j) any_error"
    using ReturnStatement by (intro expr_kept [OF K]) simp
  then show ?case
    unfolding eq
    by - (rule hoare_bind, rule kept_print [OF K], erule hoare_bind, rule kept_println [OF K])
next
  case (IfStmt c ts fs sp)
  have cond: "hoare (R j) (visitExpression em c) (R j) any_error"
    using IfStmt.prems by (intro expr_kept [OF K]) auto
  have ts: "hoare (R i) (visitStatement em s) (F i) any_error" if "s \<in> set ts" for s i
    using IfStmt.IH(1) [OF that] IfStmt.prems that by auto
  have fs: "hoare (R i) (visitStatement em s) (F i) any_error" if "s \<in> set fs" for s i
    using IfStmt.IH(2) [OF that] IfStmt.prems that by auto
  have close: "hoare (R j) (\<lambda>c. println c sp ''}'') (F j) any_error"
    by (rule kept_println [OF K])
  show ?case
  proof (cases "length ts \<le> 1 \<and> \<not> fs \<noteq> []")
    case True
    have eq: "visitStatement em (IfStmt c ts fs sp)
        = (\<lambda>ctx. andThen (print ctx sp ''if ('' False) (\<lambda>ctx.
             andThen (visitExpression em c ctx) (\<lambda>ctx.
             andThen (print ctx sp '') {'' False) (\<lambda>ctx.
             andThen
               (andThen (print ctx sp '' '' False) (\<lambda>ctx.
                andThen (visitAllStatements em ts ctx) (\<lambda>ctx.
                andThen (removeEmptyLastLine ctx) (\<lambda>ctx.
                print ctx sp '' '' False))))
               (\<lambda>ctx. println ctx sp ''}'')))))"
      by (intro ext) (simp only: visitStatement.simps Let_def if_P [OF True])
    have inl: "hoare (with_fragment R j) (visitAllStatements em ts)
        (\<lambda>c. with_fragment R j c \<or> F j c) any_error"
      using True by (intro kept_stmts_inline ts) simp_all
    have body: "hoare (R j)
        (\<lambda>ctx. andThen (print ctx sp '' '' False) (\<lambda>ctx.
                andThen (visitAllStatements em ts ctx) (\<lambda>ctx.
                andThen (removeEmptyLastLine ctx) (\<lambda>ctx.
                print ctx sp '' '' False)))) (R j) any_error"
      apply (rule hoare_bind [OF kept_print_fragment [OF K]], simp)
      apply (rule hoare_bind [OF inl])
      apply (rule hoare_bind [OF kept_removeEmptyLastLine [OF K]])
      apply (rule kept_print [OF K])
      done
    show ?thesis
      unfolding eq
      apply (rule hoare_bind [OF kept_print [OF K]])
      apply (rule hoare_bind [OF cond])
      apply (rule hoare_bind [OF kept_print [OF K]])
      apply (rule hoare_bind [OF body close])
      done
  next
    case False
    with IfStmt.prems have multi by auto
    with K have K': "kept_by_steps True R F" by simp
    have eq: "visitStatement em (IfStmt c ts fs sp)
        = (\<lambda>ctx. andThen (print ctx sp ''if ('' False) (\<lambda>ctx.
             andThen (visitExpression em c ctx) (\<lambda>ctx.
             andThen (print ctx sp '') {'' False) (\<lambda>ctx.
             andThen
               (andThen (println ctx None []) (\<lambda>ctx.
                andThen (incIndent ctx) (\<lambda>ctx.
                andThen (visitAllStatements em ts ctx) (\<lambda>ctx.
                andThen (decIndent ctx) (\<lambda>ctx.
                if fs \<noteq> [] then
                  andThen (println ctx sp ''} else {'') (\<lambda>ctx.
                  andThen (incIndent ctx) (\<lambda>ctx.
                  andThen (visitAllStatements em fs ctx) (\<lambda>ctx.
                  decIndent ctx)))
                else Inr ctx)))))
               (\<lambda>ctx. println ctx sp ''}'')))))"
      by (intro ext) (simp only: visitStatement.simps Let_def if_not_P [OF False])
    have els: "hoare (F j)
        (\<lambda>ctx. if fs \<noteq> [] then
                  andThen (println ctx sp ''} else {'') (\<lambda>ctx.
                  andThen (incIndent ctx) (\<lambda>ctx.
                  andThen (visitAllStatements em fs ctx) (\<lambda>ctx.
                  decIndent ctx)))
                else Inr ctx) (F j) any_error"
      apply (rule hoare_if)
       apply (rule hoare_bind [OF kept_println_fresh [OF K']])
       apply (rule hoare_bind [OF kept_incIndent_fresh [OF K']])
       apply (rule hoare_bind [OF kept_stmts_fresh [OF K']], erule fs)
       apply (rule kept_decIndent_fresh [OF K'])
      apply (rule hoare_Inr)
      done
    have body: "hoare (R j)
        (\<lambda>ctx. andThen (println ctx None []) (\<lambda>ctx.
                andThen (incIndent ctx) (\<lambda>ctx.
                andThen (visitAllStatements em ts ctx) (\<lambda>ctx.
                andThen (decIndent ctx) (\<lambda>ctx.
                if fs \<noteq> [] then
                  andThen (println ctx sp ''} else {'') (\<lambda>ctx.
                  andThen (incIndent ctx) (\<lambda>ctx.
                  andThen (visitAllStatements em fs ctx) (\<lambda>ctx.
                  decIndent ctx)))
                else Inr ctx))))) (R j) any_error"
      apply (rule hoare_post [of _ _ "F j"])
       apply (rule hoare_bind [OF kept_println [OF K]])
       apply (rule hoare_bind [OF kept_incIndent_fresh [OF K']])
       apply (rule hoare_bind [OF kept_stmts_fresh [OF K']], erule ts)
       apply (rule hoare_bind [OF kept_decIndent_fresh [OF K'] els])
      apply (erule kept_fresh_ready [OF K'])
      done
    show ?thesis
      unfolding eq
      apply (rule hoare_bind [OF kept_print [OF K]])
      apply (rule hoare_bind [OF cond])
      apply (rule hoare_bind [OF kept_print [OF K]])
      apply (rule hoare_bind [OF body close])
      done
  qed
next
  case (ThrowStmt e sp)
  have eq: "visitStatement em (ThrowStmt e sp)
      = (\<lambda>c. andThen (print c sp ''throw '' False) (\<lambda>c.
           andThen (visitExpression em e c) (\<lambda>c. println c sp '';'')))"
    by (rule ext) simp
  have "hoare (R j) (visitExpression em e) (R j) any_error"
    using ThrowStmt by (intro expr_kept [OF K]) simp
  then show ?case
    unfolding eq
    by - (rule hoare_bind, rule kept_print [OF K], erule hoare_bind, rule kept_println [OF K])
next
  case (CommentStmt c sp)
  have eq: "visitStatement em (CommentStmt c sp) = forEach_println sp (split_newline c)"
    by (rule ext) simp
  show ?case
    unfolding eq
    by (rule kept_forEach_println [OF K], rule split_newline_nonempty)
       (use CommentStmt in \<open>auto simp: split_newline_single\<close>)
qed

lemma stmts_kept:
  assumes K: "kept_by_steps True R F"
  shows "hoare (F j) (visitAllStatements em ss) (F j) any_error"
  by (rule kept_stmts_fresh [OF K]) (rule stmt_kept [OF K], simp)

lemma kept_stmts_ready:
  assumes K: "kept_by_steps True R F"
  shows "hoare (R j) (visitAllStatements em ss) (R j) any_error"
proof (induction ss)
  case Nil
  show ?case by (rule hoareI) simp
next
  case (Cons s ss)
  have eq: "visitAllStatements em (s # ss)
      = (\<lambda>c. andThen (visitStatement em s c) (visitAllStatements em ss))"
    by (rule ext) simp
  have "hoare (R j) (visitStatement em s) (R j) any_error"
    by (rule hoare_post [OF stmt_kept [OF K]], simp) (rule kept_fresh_ready [OF K])
  then show ?case
    unfolding eq using Cons by (rule hoare_bind)
qed

section \<open>Trees that render on the current line\<close>


















section \<open>Literal arrays and maps\<close>

















section \<open>If statements\<close>




lemma fresh_line_lines: "fresh_line k c \<Longrightarrow> ctx_lines c \<noteq> []"
  by (auto simp: fresh_line_def)








section \<open>The indent counter and the recorded indents\<close>

lemma run_ops_append:
  "run_ops (xs @ ys) ctx = andThen (run_ops xs ctx) (run_ops ys)"
proof (induction xs arbitrary: ctx)
  case Nil
  show ?case by (simp add: andThen_Inr_left)
next
  case (Cons x xs)
  have "run_ops (xs @ ys) = (\<lambda>c. andThen (run_ops xs c) (run_ops ys))"
    by (rule ext) (rule Cons.IH)
  then show ?case by (simp add: andThen_assoc)
qed




section \<open>The rendering keeps the indents non-negative and the lines well formed\<close>

lemma ready_emit: "ready k c \<Longrightarrow> ready k (emit c sp p)"
  by (simp add: ready_def)

lemma ready_open_line: "ready k c \<Longrightarrow> fresh_line k (open_line c)"
  by (cases "ctx_lines c" rule: rev_cases) (simp_all add: ready_def fresh_line_def open_line_def)

lemma ready_with_indent: "ready k c \<Longrightarrow> ready j (with_indent j c)"
  by (simp add: ready_def)

lemma fresh_line_with_indent: "fresh_line k c \<Longrightarrow> fresh_line j (with_indent j c)"
  by (cases "ctx_lines c" rule: rev_cases)
     (simp_all add: fresh_line_def with_indent_def new_EmittedLine_def)

lemma fresh_line_butlast:
  "fresh_line k c \<Longrightarrow>
     ctx_lines c \<noteq> [] \<and> parts (last (ctx_lines c)) = []
     \<and> ready k (c\<lparr>ctx_lines := butlast (ctx_lines c)\<rparr>)"
  by (cases "ctx_lines c" rule: rev_cases)
     (auto simp add: fresh_line_def ready_def new_EmittedLine_def)






lemma lines_wf_emit: "ctx_lines c \<noteq> [] \<Longrightarrow> lines_wf c \<Longrightarrow> lines_wf (emit c sp p)"
  by (cases "ctx_lines c" rule: rev_cases) (auto simp add: lines_wf_def emit_def)

lemma lines_wf_open_line: "lines_wf c \<Longrightarrow> lines_wf (open_line c)"
  by (simp add: lines_wf_def open_line_def new_EmittedLine_def)

lemma lines_wf_with_indent: "ctx_lines c \<noteq> [] \<Longrightarrow> lines_wf c \<Longrightarrow> lines_wf (with_indent j c)"
  by (cases "ctx_lines c" rule: rev_cases) (auto simp add: lines_wf_def with_indent_def)

lemma lines_wf_butlast: "lines_wf c \<Longrightarrow> lines_wf (c\<lparr>ctx_lines := butlast (ctx_lines c)\<rparr>)"
  by (auto simp add: lines_wf_def dest: in_set_butlastD)

lemma wf_kept: "kept_by_steps True (wf_at k) (wf_new_line_at k)"
proof (rule kept_by_stepsI)
  fix n c sp p
  assume r: "wf_at k n c"
  then have ne: "ctx_lines c \<noteq> []" and k: "ctx_indent c = k + int n"
    by (simp_all add: wf_at_def ready_def)
  show "ctx_lines c \<noteq> []" by (rule ne)
  from r ne show "wf_at k n (emit c sp p)"
    by (simp add: wf_at_def ready_emit lines_wf_emit)
  from r show "wf_new_line_at k n (open_line c)"
    by (simp add: wf_at_def wf_new_line_at_def ready_open_line lines_wf_open_line)
  from r ne show "wf_at k (Suc n) (with_indent (ctx_indent c + 1) c)"
    using ready_with_indent [of "k + int n" c "k + int n + 1"]
    by (simp add: wf_at_def k lines_wf_with_indent ac_simps)
next
  fix n c
  assume r: "wf_at k (Suc n) c"
  then have ne: "ctx_lines c \<noteq> []" and k: "ctx_indent c = k + int n + 1"
    by (simp_all add: wf_at_def ready_def)
  from r ne show "wf_at k n (with_indent (ctx_indent c - 1) c)"
    using ready_with_indent [of "k + int n + 1" c "k + int n"]
    by (simp add: wf_at_def k lines_wf_with_indent ac_simps)
next
  fix n c
  assume f: "wf_new_line_at k n c"
  then show "ctx_lines c \<noteq> [] \<and> parts (last (ctx_lines c)) = []
      \<and> wf_at k n (c\<lparr>ctx_lines := butlast (ctx_lines c)\<rparr>)"
    using fresh_line_butlast [of "k + int n" c]
    by (simp add: wf_at_def wf_new_line_at_def lines_wf_butlast)
  from f show "wf_at k n c"
    by (simp add: wf_at_def wf_new_line_at_def fresh_line_ready)
  from f have ne: "ctx_lines c \<noteq> []" and k: "ctx_indent c = k + int n"
    by (auto simp add: wf_new_line_at_def fresh_line_def)
  from f ne show "wf_new_line_at k (Suc n) (with_indent (ctx_indent c + 1) c)"
    using fresh_line_with_indent [of "k + int n" c "k + int n + 1"]
    by (simp add: wf_new_line_at_def k lines_wf_with_indent ac_simps)
next
  fix n c
  assume f: "wf_new_line_at k (Suc n) c"
  then have ne: "ctx_lines c \<noteq> []" and k: "ctx_indent c = k + int n + 1"
    by (auto simp add: wf_new_line_at_def fresh_line_def)
  from f ne show "wf_new_line_at k n (with_indent (ctx_indent c - 1) c)"
    using fresh_line_with_indent [of "k + int n + 1" c "k + int n"]
    by (simp add: wf_new_line_at_def k lines_wf_with_indent ac_simps)
qed




lemma expr_lines_wf:
  assumes "ctx_lines c \<noteq> []" "lines_wf c" "visitExpression em e c = Inr c'"
  shows "lines_wf c'"
proof -
  have "hoare (wf_at (ctx_indent c) 0) (visitExpression em e) (wf_at (ctx_indent c) 0) any_error"
    by (rule expr_kept [OF wf_kept]) simp
  from hoare_Inr_D [OF this _ assms(3)] assms(1,2) show ?thesis
    by (simp add: wf_at_def ready_def)
qed

lemma stmts_lines_wf:
  assumes "ctx_lines c \<noteq> []" "lines_wf c" "visitAllStatements em ss c = Inr c'"
  shows "lines_wf c'"
proof -
  have "hoare (wf_at (ctx_indent c) 0) (visitAllStatements em ss) (wf_at (ctx_indent c) 0) any_error"
    by (rule kept_stmts_ready [OF wf_kept])
  from hoare_Inr_D [OF this _ assms(3)] assms(1,2) show ?thesis
    by (simp add: wf_at_def ready_def)
qed

lemma createRoot_sound:
  "ctx_lines (createRoot exportedVars) \<noteq> [] \<and> indents_nonneg (createRoot exportedVars)
     \<and> lines_wf (createRoot exportedVars)"
  by (simp add: createRoot_def new_EmitterVisitorContext_def new_EmittedLine_def
      indents_nonneg_def lines_wf_def)




lemma rendering_lines_wf:
  assumes "visitAllStatements em ss (createRoot exportedVars) = Inr c"
  shows "lines_wf c"
  using stmts_lines_wf [OF _ _ assms] createRoot_sound [of exportedVars] by simp

lemma lines_wf_sourceLines:
  "lines_wf ctx \<Longrightarrow>
   \<forall>l \<in> set (sourceLines ctx). length (parts l) = length (srcSpans l) \<and> (\<forall>p \<in> set (parts l). p \<noteq> [])"
  by (auto simp: lines_wf_def sourceLines_def dest: in_set_butlastD)

lemma run_ops_lines_wf:
  "\<exists>ctx'. run_ops ops (createRoot exportedVars) = Inr ctx' \<and> ctx_lines ctx' \<noteq> [] \<and> lines_wf ctx'"
proof (induction ops rule: rev_induct)
  case Nil
  show ?case
    by (simp add: createRoot_def new_EmitterVisitorContext_def new_EmittedLine_def lines_wf_def)
next
  case (snoc op ops)
  then obtain c where c: "run_ops ops (createRoot exportedVars) = Inr c"
    and ne: "ctx_lines c \<noteq> []" and wf: "lines_wf c"
    by blast
  from ne obtain ls l where ls: "ctx_lines c = ls @ [l]"
    by (cases "ctx_lines c" rule: rev_cases) auto
  show ?case
  proof (cases op)
    case (Print frm part newLine)
    with c ne wf ls show ?thesis
      by (auto simp add: run_ops_append andThen_Inr_left print_eq new_EmittedLine_def
          lines_wf_def)
  next
    case IncIndent
    with c ne wf ls show ?thesis
      by (auto simp add: run_ops_append andThen_Inr_left incIndent_def set_indent_eq
          lines_wf_def)
  next
    case DecIndent
    with c ne wf ls show ?thesis
      by (auto simp add: run_ops_append andThen_Inr_left decIndent_def set_indent_eq
          lines_wf_def)
  qed
qed

end
